theory Spec2Isabelle
  imports Complex_Main "HOL-Library.Word" "HOL-Library.Log_Nat"
begin

section \<open>Virtual persons: the generation pipeline of \<^verbatim>\<open>VirtualPersons.js\<close>\<close>

text \<open>
  The class \<^verbatim>\<open>VirtualPersons\<close> asks a text adapter for person names, filters the names
  already stored, asks for a biography and a status per name, stores the records and asks an
  image adapter for a headshot per record. Every method is modelled as a function that
  threads the list of calls made so far (the trace); the external collaborators (the text
  adapter, the persistence service, the image service, the image storage, the random
  generator) are parameters whose answer may depend on that history and may be a rejection.
\<close>

subsection \<open>JavaScript strings and \<^verbatim>\<open>encodeName\<close>\<close>

text \<open>
  A JavaScript string is a sequence of 16-bit code units. \<^verbatim>\<open>Buffer.from(name)\<close> writes
  the string as UTF-8: a surrogate pair is one code point, and a surrogate without its
  partner is written as U+FFFD. \<^verbatim>\<open>toString('base64')\<close> is the standard alphabet
  with \<^verbatim>\<open>=\<close> padding.
\<close>

type_synonym jsstring = "16 word list"

definition lit :: "string \<Rightarrow> jsstring" where
  "lit s = map of_char s"

definition isHighSurrogate :: "16 word \<Rightarrow> bool" where
  "isHighSurrogate u = (0xD800 \<le> unat u \<and> unat u \<le> 0xDBFF)"

definition isLowSurrogate :: "16 word \<Rightarrow> bool" where
  "isLowSurrogate u = (0xDC00 \<le> unat u \<and> unat u \<le> 0xDFFF)"

fun codePoints :: "jsstring \<Rightarrow> nat list" where
  "codePoints [] = []"
| "codePoints [u] = (if isHighSurrogate u \<or> isLowSurrogate u then [0xFFFD] else [unat u])"
| "codePoints (u # v # r) =
     (if isHighSurrogate u \<and> isLowSurrogate v
      then (0x10000 + (unat u - 0xD800) * 0x400 + (unat v - 0xDC00)) # codePoints r
      else if isHighSurrogate u \<or> isLowSurrogate u then 0xFFFD # codePoints (v # r)
      else unat u # codePoints (v # r))"

definition utf8Bytes :: "nat \<Rightarrow> nat list" where
  "utf8Bytes c =
     (if c < 0x80 then [c]
      else if c < 0x800 then [0xC0 + c div 64, 0x80 + c mod 64]
      else if c < 0x10000 then [0xE0 + c div 4096, 0x80 + (c div 64) mod 64, 0x80 + c mod 64]
      else [0xF0 + c div 262144, 0x80 + (c div 4096) mod 64, 0x80 + (c div 64) mod 64,
            0x80 + c mod 64])"

definition bufferFrom :: "jsstring \<Rightarrow> 8 word list" where
  "bufferFrom s = map of_nat (concat (map utf8Bytes (codePoints s)))"

definition base64Alphabet :: string where
  "base64Alphabet = ''ABCDEFGHIJKLMNOPQRSTUVWXYZabcdefghijklmnopqrstuvwxyz0123456789+/''"

definition sextet :: "nat \<Rightarrow> char" where
  "sextet n = base64Alphabet ! n"

fun base64 :: "8 word list \<Rightarrow> string" where
  "base64 [] = []"
| "base64 [a] = [sextet (unat a div 4), sextet ((unat a mod 4) * 16), CHR ''='', CHR ''='']"
| "base64 [a, b] =
     [sextet (unat a div 4), sextet ((unat a mod 4) * 16 + unat b div 16),
      sextet ((unat b mod 16) * 4), CHR ''='']"
| "base64 (a # b # c # r) =
     [sextet (unat a div 4), sextet ((unat a mod 4) * 16 + unat b div 16),
      sextet ((unat b mod 16) * 4 + unat c div 64), sextet (unat c mod 64)] @ base64 r"

text \<open>\<^verbatim>\<open>encodeName(name) { return Buffer.from(name).toString('base64') }\<close>\<close>

definition encodeName :: "jsstring \<Rightarrow> jsstring" where
  "encodeName name = lit (base64 (bufferFrom name))"

text \<open>A string is well formed when every surrogate is half of a pair (high, then low).\<close>

fun wellFormed :: "jsstring \<Rightarrow> bool" where
  "wellFormed [] = True"
| "wellFormed [u] = (\<not> isHighSurrogate u \<and> \<not> isLowSurrogate u)"
| "wellFormed (u # v # r) =
     (if isHighSurrogate u then isLowSurrogate v \<and> wellFormed r
      else \<not> isLowSurrogate u \<and> wellFormed (v # r))"

subsection \<open>JavaScript numbers: \<^verbatim>\<open>Math.floor(Math.random() * (max - min) + min)\<close>\<close>

text \<open>
  A JavaScript number is a binary64 value. The finite ones are modelled as the rationals
  they denote, and every arithmetic operation rounds its exact result to the nearest
  binary64 value, ties to the even significand (53 bits, least exponent -1022). Overflow
  to infinity is not modelled: the operands below stay under \<open>2 ^ 1024\<close>.
\<close>

definition roundHalfEven :: "rat \<Rightarrow> int" where
  "roundHalfEven q =
     (let f = \<lfloor>q\<rfloor>; d = q - of_int f
      in if d < 1 / 2 then f else if 1 / 2 < d then f + 1 else if even f then f else f + 1)"

text \<open>The binary exponent \<open>\<lfloor>log\<^sub>2 x\<rfloor>\<close> of a positive rational.\<close>

definition exponentOf :: "rat \<Rightarrow> int" where
  "exponentOf x =
     (let (p, q) = quotient_of x; k = bitlen p - bitlen q
      in if 2 powi k \<le> x then k else k - 1)"

definition ulp :: "rat \<Rightarrow> rat" where
  "ulp x = 2 powi (max (exponentOf \<bar>x\<bar>) (- 1022) - 52)"

definition toDouble :: "rat \<Rightarrow> rat" where
  "toDouble x = (if x = 0 then 0 else of_int (roundHalfEven (x / ulp x)) * ulp x)"

text \<open>
  The expression of \<^verbatim>\<open>getRandomVirtualPersons\<close> (and, with 1500 and 2500, of the delay in
  \<^verbatim>\<open>resolvePersonImages\<close>), for the outcome \<open>r\<close> of \<^verbatim>\<open>Math.random()\<close>: the
  subtraction, the product and the sum each round.
\<close>

definition roundedSum :: "rat \<Rightarrow> int \<Rightarrow> int \<Rightarrow> rat" where
  "roundedSum r mn mx =
     toDouble (toDouble (r * toDouble (of_int mx - of_int mn)) + of_int mn)"

definition floorRandom :: "rat \<Rightarrow> int \<Rightarrow> int \<Rightarrow> int" where
  "floorRandom r mn mx = \<lfloor>roundedSum r mn mx\<rfloor>"

text \<open>
  The decimal digits a template literal writes for an integer-valued number below
  \<open>2 ^ 53\<close> in magnitude. (From there on a binary64 value is written with the shortest
  digits that read back as the same value, which this function does not model; the counts
  and delays of the pipeline stay far below.)
\<close>

fun digitsOf :: "nat \<Rightarrow> string" where
  "digitsOf n =
     (if n < 10 then [char_of (48 + n)] else digitsOf (n div 10) @ [char_of (48 + n mod 10)])"

definition numberToString :: "int \<Rightarrow> string" where
  "numberToString n = (if n < 0 then CHR ''-'' # digitsOf (nat (- n)) else digitsOf (nat n))"

subsection \<open>Records, requests and the trace of calls\<close>

text \<open>
  A person record as the pipeline reads and writes it: \<^verbatim>\<open>_id\<close> is the storage
  identifier; an absent property is \<open>None\<close>. A test \<^verbatim>\<open>if (x)\<close> on such a property
  holds when it is present and not the empty string.
\<close>

record person =
  name :: jsstring
  biography :: "jsstring option"
  status :: "jsstring option"
  headshot :: "jsstring option"
  ident :: "jsstring option"
  nameEncoded :: "jsstring option"
  link :: "jsstring option"
  projectId :: "jsstring option"
  userId :: "jsstring option"
  projectName :: "jsstring option"

fun truthy :: "jsstring option \<Rightarrow> bool" where
  "truthy None = False"
| "truthy (Some s) = (s \<noteq> [])"

text \<open>
  \<^verbatim>\<open>resolvePersonsData\<close> is documented to take names, and tests each item for
  \<^verbatim>\<open>biography\<close> and \<^verbatim>\<open>status\<close>: an item is a name or a record.
\<close>

datatype candidate = CandidateName jsstring | CandidateRecord person

datatype error = TypeError | AdapterError

text \<open>The two response formats of \<^verbatim>\<open>json-formats.js\<close> and the objects they admit.\<close>

datatype responseFormat = PersonsListJsonFormat | PersonDataJsonFormat

datatype chatResponse = PersonsList "jsstring list" | PersonData jsstring jsstring

record chatRequest =
  max_tokens :: "nat option"
  prompt :: jsstring
  responseFormat :: responseFormat

text \<open>
  An image request: the service name and options given to \<^verbatim>\<open>new ImageService\<close>, and
  the argument of \<^verbatim>\<open>getPicture\<close>.
\<close>

record imageRequest =
  serviceName :: jsstring
  styles :: "jsstring list"
  optionsAspectRatio :: jsstring
  query :: jsstring
  aspectRatio :: jsstring

datatype event =
    ChatCompletion chatRequest
  | Find "jsstring list"
  | Create person
  | Patch "jsstring option" person
  | GetPicture imageRequest
  | UploadImage jsstring
  | Delay int
  | Warn string

text \<open>
  The instance (\<^verbatim>\<open>this.projectName\<close>, \<^verbatim>\<open>this.projectId\<close>,
  \<^verbatim>\<open>this.settings.userId\<close>) and its collaborators. Each collaborator sees the calls
  made before its own; \<open>Inl\<close> is a rejected promise.
\<close>

record env =
  thisProjectName :: jsstring
  thisProjectId :: jsstring
  settingsUserId :: jsstring
  createFileName :: "jsstring \<Rightarrow> jsstring"
  mathRandom :: "event list \<Rightarrow> rat"
  createChatCompletionJson :: "event list \<Rightarrow> chatRequest \<Rightarrow> error + chatResponse"
  serviceFind :: "event list \<Rightarrow> jsstring list \<Rightarrow> error + person list"
  serviceCreate :: "event list \<Rightarrow> person \<Rightarrow> error + person"
  servicePatch :: "event list \<Rightarrow> jsstring option \<Rightarrow> person \<Rightarrow> error + unit"
  getPicture :: "event list \<Rightarrow> imageRequest \<Rightarrow> error + jsstring option"
  uploadImageStorageFromUrl :: "event list \<Rightarrow> jsstring \<Rightarrow> error + jsstring option"

subsection \<open>\<^verbatim>\<open>getRandomVirtualPersons\<close>, \<^verbatim>\<open>filterExistingPersons\<close>, \<^verbatim>\<open>getVirtualPersons\<close>\<close>

definition namesPrompt :: "jsstring \<Rightarrow> int \<Rightarrow> jsstring" where
  "namesPrompt project number =
     lit ''We have a project named '' @ project @ lit ''. We need ''
     @ lit (numberToString number)
     @ lit '' person names who are related to this project.''
     @ lit [CHR 0x0A]
     @ lit ''     The persons should be between the ages of 30-40 years old. List ''
     @ lit (numberToString number) @ lit '' full names and present in JSON format.''"

definition getRandomVirtualPersons ::
  "env \<Rightarrow> int \<Rightarrow> int \<Rightarrow> event list \<Rightarrow> (error + jsstring list) \<times> event list" where
  "getRandomVirtualPersons e mn mx tr =
     (let number = floorRandom (mathRandom e tr) mn mx;
          request = \<lparr>max_tokens = None, prompt = namesPrompt (thisProjectName e) number,
                     responseFormat = PersonsListJsonFormat\<rparr>;
          tr1 = tr @ [ChatCompletion request]
      in case createChatCompletionJson e tr request of
           Inl err \<Rightarrow> (Inl err, tr1)
         | Inr (PersonsList names) \<Rightarrow> (Inr names, tr1)
         | Inr (PersonData b s) \<Rightarrow> (Inl TypeError, tr1))"

definition filterExistingPersons ::
  "env \<Rightarrow> jsstring list \<Rightarrow> event list \<Rightarrow> (error + jsstring list) \<times> event list" where
  "filterExistingPersons e persons tr =
     (let encodedNames = map encodeName persons;
          tr1 = tr @ [Find encodedNames]
      in case serviceFind e tr encodedNames of
           Inl err \<Rightarrow> (Inl err, tr1)
         | Inr existingPersons \<Rightarrow>
             (let existingPersonNames = map name existingPersons
              in (Inr (filter (\<lambda>person. person \<notin> set existingPersonNames) persons), tr1)))"

definition getVirtualPersons ::
  "env \<Rightarrow> int \<Rightarrow> int \<Rightarrow> event list \<Rightarrow> (error + jsstring list) \<times> event list" where
  "getVirtualPersons e mn mx tr =
     (case getRandomVirtualPersons e mn mx tr of
        (Inl err, tr1) \<Rightarrow> (Inl err, tr1)
      | (Inr randomVirtualPersons, tr1) \<Rightarrow>
          (case filterExistingPersons e randomVirtualPersons tr1 of
             (Inl err, tr2) \<Rightarrow> (Inl err, tr2)
           | (Inr filteredPersons, tr2) \<Rightarrow>
               (Inr filteredPersons,
                if int (length filteredPersons) < mn
                then tr2 @ [Warn ''not enough persons''] else tr2)))"

text \<open>
  Modelled from the spec: the persistence service is not among the sources. Its
  \<^verbatim>\<open>find\<close> answers, from the stored records, those "whose encoded-name is in that set".
\<close>

definition storeFind :: "person list \<Rightarrow> event list \<Rightarrow> jsstring list \<Rightarrow> error + person list" where
  "storeFind stored tr encodedNames =
     Inr (filter (\<lambda>p. \<exists>n \<in> set encodedNames. nameEncoded p = Some n) stored)"

subsection \<open>\<^verbatim>\<open>resolvePersonsData\<close>\<close>

definition candidateText :: "candidate \<Rightarrow> jsstring" where
  "candidateText c = (case c of CandidateName n \<Rightarrow> n | CandidateRecord p \<Rightarrow> lit ''[object Object]'')"

definition getPersonDataPrompt :: "env \<Rightarrow> candidate \<Rightarrow> jsstring" where
  "getPersonDataPrompt e person =
     lit ''We have a site named '' @ thisProjectName e @ lit ''. We have an author named ''
     @ candidateText person @ lit ''.'' @ lit [CHR 0x0A]
     @ lit ''     I need 2 things in JSON format: biography and status.''"

definition resolved :: "candidate \<Rightarrow> bool" where
  "resolved c =
     (case c of CandidateName n \<Rightarrow> False
      | CandidateRecord p \<Rightarrow> truthy (biography p) \<and> truthy (status p))"

text \<open>
  The loop of \<^verbatim>\<open>resolvePersonsData\<close> with its accumulator \<^verbatim>\<open>personsData\<close>. After the
  request the source calls \<^verbatim>\<open>personData.push(...)\<close>, where \<^verbatim>\<open>personData\<close> is the
  response: an object of either response format has no \<^verbatim>\<open>push\<close>, so the call throws
  a TypeError and nothing is appended to \<^verbatim>\<open>personsData\<close>.
\<close>

fun resolvePersonsDataLoop ::
  "env \<Rightarrow> candidate list \<Rightarrow> candidate list \<Rightarrow> event list
     \<Rightarrow> (error + candidate list) \<times> event list" where
  "resolvePersonsDataLoop e [] personsData tr = (Inr personsData, tr)"
| "resolvePersonsDataLoop e (person # rest) personsData tr =
     (if resolved person then resolvePersonsDataLoop e rest (personsData @ [person]) tr
      else
        (let request = \<lparr>max_tokens = Some 1000, prompt = getPersonDataPrompt e person,
                        responseFormat = PersonDataJsonFormat\<rparr>;
             tr1 = tr @ [ChatCompletion request]
         in case createChatCompletionJson e tr request of
              Inl err \<Rightarrow> (Inl err, tr1)
            | Inr personData \<Rightarrow> (Inl TypeError, tr1)))"

definition resolvePersonsData ::
  "env \<Rightarrow> candidate list \<Rightarrow> event list \<Rightarrow> (error + candidate list) \<times> event list" where
  "resolvePersonsData e persons tr = resolvePersonsDataLoop e persons [] tr"

subsection \<open>\<^verbatim>\<open>savePersonsData\<close>\<close>

definition createPayload :: "env \<Rightarrow> person \<Rightarrow> person" where
  "createPayload e personData =
     personData\<lparr>nameEncoded := Some (encodeName (name personData)),
                link := Some (createFileName e (name personData)),
                projectId := Some (thisProjectId e),
                userId := Some (settingsUserId e),
                projectName := Some (thisProjectName e)\<rparr>"

fun savePersonsDataLoop ::
  "env \<Rightarrow> person list \<Rightarrow> person list \<Rightarrow> event list \<Rightarrow> (error + person list) \<times> event list" where
  "savePersonsDataLoop e [] createdPersons tr = (Inr createdPersons, tr)"
| "savePersonsDataLoop e (personData # rest) createdPersons tr =
     (if truthy (ident personData)
      then savePersonsDataLoop e rest (createdPersons @ [personData]) tr
      else
        (let payload = createPayload e personData;
             tr1 = tr @ [Create payload]
         in case serviceCreate e tr payload of
              Inl err \<Rightarrow> (Inl err, tr1)
            | Inr savedPerson \<Rightarrow> savePersonsDataLoop e rest (createdPersons @ [savedPerson]) tr1))"

definition savePersonsData ::
  "env \<Rightarrow> person list \<Rightarrow> event list \<Rightarrow> (error + person list) \<times> event list" where
  "savePersonsData e personsData tr = savePersonsDataLoop e personsData [] tr"

subsection \<open>\<^verbatim>\<open>generateHeadshot\<close> and \<^verbatim>\<open>resolvePersonImages\<close>\<close>

definition headshotRequest :: "jsstring \<Rightarrow> imageRequest" where
  "headshotRequest personName =
     \<lparr>serviceName = lit ''midjourney'', styles = [], optionsAspectRatio = lit ''1:1'',
      query = lit ''Photo headshot for the '' @ personName @ lit '' , Aged 30-40 years old.'',
      aspectRatio = lit ''1:1''\<rparr>"

definition generateHeadshot ::
  "env \<Rightarrow> jsstring \<Rightarrow> event list \<Rightarrow> (error + jsstring option) \<times> event list" where
  "generateHeadshot e personName tr =
     (let request = headshotRequest personName;
          tr1 = tr @ [GetPicture request]
      in case getPicture e tr request of
           Inl err \<Rightarrow> (Inl err, tr1)
         | Inr imageUrl \<Rightarrow>
             (case imageUrl of
                None \<Rightarrow> (Inr None, tr1 @ [Warn ''Failed to generate headshot''])
              | Some url \<Rightarrow>
                  if url = [] then (Inr None, tr1 @ [Warn ''Failed to generate headshot''])
                  else
                    (case uploadImageStorageFromUrl e tr1 url of
                       Inl err \<Rightarrow> (Inl err, tr1 @ [UploadImage url])
                     | Inr stored \<Rightarrow> (Inr stored, tr1 @ [UploadImage url]))))"

text \<open>
  \<^verbatim>\<open>resolvePersonImages\<close> assigns \<^verbatim>\<open>personData.headshot\<close> on the objects of the list
  it is given, so the list holds addresses into a store of records. An address with no
  record stands for an \<^verbatim>\<open>undefined\<close> element, whose property read throws.
\<close>

type_synonym store = "nat \<Rightarrow> person option"

fun resolvePersonImages ::
  "env \<Rightarrow> nat list \<Rightarrow> store \<times> event list \<Rightarrow> (error + unit) \<times> store \<times> event list" where
  "resolvePersonImages e [] s = (Inr (), s)"
| "resolvePersonImages e (a # rest) (h, tr) =
     (case h a of
        None \<Rightarrow> (Inl TypeError, h, tr)
      | Some personData \<Rightarrow>
          if truthy (headshot personData) then resolvePersonImages e rest (h, tr)
          else
            (case generateHeadshot e (name personData) tr of
               (Inl err, tr1) \<Rightarrow> (Inl err, h, tr1)
             | (Inr newHeadshot, tr1) \<Rightarrow>
                 (let patched = (if truthy newHeadshot then personData\<lparr>headshot := newHeadshot\<rparr>
                                 else personData);
                      h1 = h(a \<mapsto> patched);
                      tr2 = tr1 @ [Patch (ident patched) patched]
                  in case servicePatch e tr1 (ident patched) patched of
                       Inl err \<Rightarrow> (Inl err, h1, tr2)
                     | Inr u \<Rightarrow>
                         (let randomDelay = floorRandom (mathRandom e tr2) 1500 2500
                          in resolvePersonImages e rest (h1, tr2 @ [Delay randomDelay])))))"

subsection \<open>\<^verbatim>\<open>init\<close>\<close>

text \<open>
  \<^verbatim>\<open>if (!virtualPersons) return\<close> tests an array, and every array, the empty one
  included, is truthy. The records \<^verbatim>\<open>savePersonsData\<close> returns are distinct objects;
  a name that reached it would have no \<^verbatim>\<open>name\<close> property to encode.
\<close>

definition arrayTruthy :: "'a list \<Rightarrow> bool" where
  "arrayTruthy xs = True"

fun recordsOf :: "candidate list \<Rightarrow> error + person list" where
  "recordsOf [] = Inr []"
| "recordsOf (CandidateName n # rest) = Inl TypeError"
| "recordsOf (CandidateRecord p # rest) =
     (case recordsOf rest of Inl err \<Rightarrow> Inl err | Inr ps \<Rightarrow> Inr (p # ps))"

definition storeOf :: "person list \<Rightarrow> store" where
  "storeOf ps = (\<lambda>a. if a < length ps then Some (ps ! a) else None)"

definition init :: "env \<Rightarrow> int \<Rightarrow> int \<Rightarrow> event list \<Rightarrow> (error + unit) \<times> event list" where
  "init e mn mx tr =
     (case getVirtualPersons e mn mx tr of
        (Inl err, tr1) \<Rightarrow> (Inl err, tr1)
      | (Inr virtualPersons, tr1) \<Rightarrow>
          if \<not> arrayTruthy virtualPersons then (Inr (), tr1)
          else
            (case resolvePersonsData e (map CandidateName virtualPersons) tr1 of
               (Inl err, tr2) \<Rightarrow> (Inl err, tr2)
             | (Inr personsData, tr2) \<Rightarrow>
                 (case recordsOf personsData of
                    Inl err \<Rightarrow> (Inl err, tr2)
                  | Inr records \<Rightarrow>
                      (case savePersonsData e records tr2 of
                         (Inl err, tr3) \<Rightarrow> (Inl err, tr3)
                       | (Inr savedPersons, tr3) \<Rightarrow>
                           (case resolvePersonImages e [0..<length savedPersons]
                                   (storeOf savedPersons, tr3) of
                              (Inl err, h, tr4) \<Rightarrow> (Inl err, tr4)
                            | (Inr u, h, tr4) \<Rightarrow> (Inr (), tr4))))))"

subsection \<open>Predicates of the statements and a concrete instance\<close>

text \<open>The record at an address already carries a headshot: the test of the loop holds.\<close>

definition hasHeadshot :: "store \<Rightarrow> nat \<Rightarrow> bool" where
  "hasHeadshot h a = (case h a of None \<Rightarrow> False | Some p \<Rightarrow> truthy (headshot p))"

definition isGetPicture :: "event \<Rightarrow> bool" where
  "isGetPicture ev = (case ev of GetPicture rq \<Rightarrow> True | _ \<Rightarrow> False)"

text \<open>
  An instance for the examples: the text adapter answers two names or a biography, the
  service stores what it is given under a fixed identifier, the image adapter has no
  picture, and the random generator draws 0.
\<close>

definition blank :: "jsstring \<Rightarrow> person" where
  "blank n = \<lparr>name = n, biography = None, status = None, headshot = None, ident = None,
              nameEncoded = None, link = None, projectId = None, userId = None,
              projectName = None\<rparr>"

definition stored :: "jsstring \<Rightarrow> person" where
  "stored n = (blank n)\<lparr>biography := Some (lit ''bio''), status := Some (lit ''author''),
                        ident := Some (lit ''id1''), nameEncoded := Some (encodeName n)\<rparr>"

definition demoEnv :: env where
  "demoEnv =
     \<lparr>thisProjectName = lit ''example.com'', thisProjectId = lit ''p1'',
      settingsUserId = lit ''u1'', createFileName = (\<lambda>n. n @ lit ''.html''),
      mathRandom = (\<lambda>tr. 0),
      createChatCompletionJson =
        (\<lambda>tr rq. case responseFormat rq of
            PersonsListJsonFormat \<Rightarrow> Inr (PersonsList [lit ''Ann'', lit ''Bob''])
          | PersonDataJsonFormat \<Rightarrow> Inr (PersonData (lit ''bio'') (lit ''author''))),
      serviceFind = storeFind [stored (lit ''Ann'')],
      serviceCreate = (\<lambda>tr p. Inr (p\<lparr>ident := Some (lit ''id2'')\<rparr>)),
      servicePatch = (\<lambda>tr i p. Inr ()),
      getPicture = (\<lambda>tr rq. Inr None),
      uploadImageStorageFromUrl = (\<lambda>tr url. Inr (Some url))\<rparr>"

text \<open>The same instance with both names already stored.\<close>

definition allStoredEnv :: env where
  "allStoredEnv = demoEnv\<lparr>serviceFind := storeFind [stored (lit ''Ann''), stored (lit ''Bob'')]\<rparr>"

definition namesRequest :: chatRequest where
  "namesRequest = \<lparr>max_tokens = None,
                   prompt = namesPrompt (lit ''example.com'') (floorRandom 0 1 3),
                   responseFormat = PersonsListJsonFormat\<rparr>"

text \<open>A stored record that carries a headshot.\<close>

definition annWithHeadshot :: person where
  "annWithHeadshot = (stored (lit ''Ann''))\<lparr>headshot := Some (lit ''https://img/ann.png'')\<rparr>"





section \<open>Properties\<close>

subsection \<open>The encoding of names\<close>

lemma unat_of_char16: "unat (of_char e :: 16 word) = of_char e"
proof -
  have "(of_char e :: 16 word) = of_nat (of_char e)" by (simp add: of_nat_of_char)
  then have "unat (of_char e :: 16 word) = (of_char e :: nat) mod 2 ^ 16"
    by (simp only: unat_of_nat) simp
  moreover have "(of_char e :: nat) < 2 ^ 16"
    by (rule less_trans [OF nat_of_char_less_256]) simp
  ultimately show ?thesis by simp
qed

lemma lit_inj: "lit a = lit b \<Longrightarrow> a = b"
proof -
  assume h: "lit a = lit b"
  have "inj (of_char :: char \<Rightarrow> 16 word)"
  proof (rule injI)
    fix c d :: char
    assume "(of_char c :: 16 word) = of_char d"
    then have "unat (of_char c :: 16 word) = unat (of_char d :: 16 word)" by simp
    then have "(of_char c :: nat) = of_char d" by (simp only: unat_of_char16)
    then show "c = d" by simp
  qed
  with h show ?thesis unfolding lit_def by (simp add: inj_map_eq_map)
qed

lemma sextet_distinct: "distinct base64Alphabet"
  by (simp add: base64Alphabet_def)

lemma sextet_length: "length base64Alphabet = 64"
  by (simp add: base64Alphabet_def)

lemma sextet_inj: "m < 64 \<Longrightarrow> n < 64 \<Longrightarrow> sextet m = sextet n \<Longrightarrow> m = n"
  unfolding sextet_def using sextet_distinct sextet_length
  by (simp add: nth_eq_iff_index_eq)

lemma sextet_not_pad: "n < 64 \<Longrightarrow> sextet n \<noteq> CHR ''=''"
proof -
  have "CHR ''='' \<notin> set base64Alphabet" by (simp add: base64Alphabet_def)
  moreover assume "n < 64"
  ultimately show ?thesis unfolding sextet_def using sextet_length
    by (metis nth_mem)
qed

lemma byte_lt: "unat (a :: 8 word) < 256"
  using unsigned_less [of a, where 'a = nat] by simp

lemma byte_eqI: "unat (a :: 8 word) = unat b \<Longrightarrow> a = b"
  by (simp add: word_unat_eq_iff)

lemma digits_inj:
  assumes "y < k" "y' < k" "x * k + y = x' * k + (y' :: nat)"
  shows "x = x' \<and> y = y'"
proof -
  have "(x * k + y) div k = x" "(x' * k + y') div k = x'"
    using assms(1,2) by simp_all
  then have "x = x'" using assms(3) by metis
  with assms(3) show ?thesis by simp
qed

lemma joinI: "a div k = b div k \<Longrightarrow> a mod k = b mod k \<Longrightarrow> a = (b :: nat)"
  by (metis div_mult_mod_eq)

lemma group1_inj:
  assumes "a < 256" "a' < 256"
    and "sextet (a div 4) = sextet (a' div 4)"
    and "sextet ((a mod 4) * 16) = sextet ((a' mod 4) * 16)"
  shows "a = (a' :: nat)"
proof -
  have "a div 4 < 64" "a' div 4 < 64" using assms by simp_all
  then have 1: "a div 4 = a' div 4" using assms(3) by (rule sextet_inj)
  have "a mod 4 < 4" "a' mod 4 < 4" by simp_all
  then have "(a mod 4) * 16 < 64" "(a' mod 4) * 16 < 64" by linarith+
  then have "(a mod 4) * 16 = (a' mod 4) * 16" using assms(4) by (rule sextet_inj)
  then have "a mod 4 = a' mod 4" by simp
  with 1 show ?thesis by (rule joinI)
qed

lemma group2_inj:
  assumes "a < 256" "a' < 256" "b < 256" "b' < 256"
    and "sextet (a div 4) = sextet (a' div 4)"
    and "sextet ((a mod 4) * 16 + b div 16) = sextet ((a' mod 4) * 16 + b' div 16)"
    and "sextet ((b mod 16) * 4) = sextet ((b' mod 16) * 4)"
  shows "a = (a' :: nat) \<and> b = b'"
proof -
  have "a div 4 < 64" "a' div 4 < 64" using assms by simp_all
  then have 1: "a div 4 = a' div 4" using assms(5) by (rule sextet_inj)
  have m: "a mod 4 < 4" "a' mod 4 < 4" by simp_all
  have d: "b div 16 < 16" "b' div 16 < 16" using assms by simp_all
  have "(a mod 4) * 16 + b div 16 < 64" "(a' mod 4) * 16 + b' div 16 < 64"
    using m d by linarith+
  then have "(a mod 4) * 16 + b div 16 = (a' mod 4) * 16 + b' div 16"
    using assms(6) by (rule sextet_inj)
  from digits_inj [OF d this] have 2: "a mod 4 = a' mod 4" "b div 16 = b' div 16" by simp_all
  have n: "b mod 16 < 16" "b' mod 16 < 16" by simp_all
  then have "(b mod 16) * 4 < 64" "(b' mod 16) * 4 < 64" by linarith+
  then have "(b mod 16) * 4 = (b' mod 16) * 4" using assms(7) by (rule sextet_inj)
  then have 3: "b mod 16 = b' mod 16" by simp
  show ?thesis using joinI [OF 1 2(1)] joinI [OF 2(2) 3] by simp
qed

lemma group3_inj:
  assumes "a < 256" "a' < 256" "b < 256" "b' < 256" "c < 256" "c' < 256"
    and "sextet (a div 4) = sextet (a' div 4)"
    and "sextet ((a mod 4) * 16 + b div 16) = sextet ((a' mod 4) * 16 + b' div 16)"
    and "sextet ((b mod 16) * 4 + c div 64) = sextet ((b' mod 16) * 4 + c' div 64)"
    and "sextet (c mod 64) = sextet (c' mod 64)"
  shows "a = (a' :: nat) \<and> b = b' \<and> c = c'"
proof -
  have "a div 4 < 64" "a' div 4 < 64" using assms by simp_all
  then have 1: "a div 4 = a' div 4" using assms(7) by (rule sextet_inj)
  have m: "a mod 4 < 4" "a' mod 4 < 4" by simp_all
  have d: "b div 16 < 16" "b' div 16 < 16" using assms by simp_all
  have "(a mod 4) * 16 + b div 16 < 64" "(a' mod 4) * 16 + b' div 16 < 64"
    using m d by linarith+
  then have "(a mod 4) * 16 + b div 16 = (a' mod 4) * 16 + b' div 16"
    using assms(8) by (rule sextet_inj)
  from digits_inj [OF d this] have 2: "a mod 4 = a' mod 4" "b div 16 = b' div 16" by simp_all
  have n: "b mod 16 < 16" "b' mod 16 < 16" by simp_all
  have e: "c div 64 < 4" "c' div 64 < 4" using assms by simp_all
  have "(b mod 16) * 4 + c div 64 < 64" "(b' mod 16) * 4 + c' div 64 < 64"
    using n e by linarith+
  then have "(b mod 16) * 4 + c div 64 = (b' mod 16) * 4 + c' div 64"
    using assms(9) by (rule sextet_inj)
  from digits_inj [OF e this] have 3: "b mod 16 = b' mod 16" "c div 64 = c' div 64" by simp_all
  have "c mod 64 < 64" "c' mod 64 < 64" by simp_all
  then have 4: "c mod 64 = c' mod 64" using assms(10) by (rule sextet_inj)
  show ?thesis using joinI [OF 1 2(1)] joinI [OF 2(2) 3(1)] joinI [OF 3(2) 4] by simp
qed

lemma pad3: "sextet ((unat (b :: 8 word) mod 16) * 4) \<noteq> CHR ''=''"
proof (rule sextet_not_pad)
  have "unat b mod 16 < 16" by simp
  then show "(unat b mod 16) * 4 < 64" by linarith
qed

lemma pad4: "sextet (unat (c :: 8 word) mod 64) \<noteq> CHR ''=''"
  by (rule sextet_not_pad) simp

lemma base64_inj: "base64 xs = base64 ys \<Longrightarrow> xs = ys"
proof (induction xs arbitrary: ys rule: base64.induct)
  case 1
  then show ?case by (cases ys rule: base64.cases) auto
next
  case (2 a)
  have p: "sextet ((unat a mod 4) * 16) \<noteq> CHR ''=''" "CHR ''='' \<noteq> sextet ((unat a mod 4) * 16)"
    using sextet_not_pad [of "(unat a mod 4) * 16"] by auto
  show ?case
  proof (cases ys rule: base64.cases)
    case 1
    with 2 show ?thesis by simp
  next
    case (2 a')
    with "2.prems" group1_inj [OF byte_lt [of a] byte_lt [of a']] show ?thesis
      by (auto intro: byte_eqI)
  next
    case (3 a' b')
    with pad3 [of b'] "2.prems" show ?thesis by auto
  next
    case (4 a' b' c' r')
    with pad4 [of c'] "2.prems" show ?thesis by auto
  qed
next
  case (3 a b)
  show ?case
  proof (cases ys rule: base64.cases)
    case 1
    with 3 show ?thesis by simp
  next
    case (2 a')
    with pad3 [of b] "3.prems" show ?thesis by auto
  next
    case (3 a' b')
    with "3.prems" group2_inj [OF byte_lt [of a] byte_lt [of a'] byte_lt [of b] byte_lt [of b']]
    show ?thesis by (auto intro: byte_eqI)
  next
    case (4 a' b' c' r')
    with pad4 [of c'] "3.prems" show ?thesis by auto
  qed
next
  case (4 a b c r)
  show ?case
  proof (cases ys rule: base64.cases)
    case 1
    with 4 show ?thesis by simp
  next
    case (2 a')
    with pad4 [of c] "4.prems" show ?thesis by auto
  next
    case (3 a' b')
    with pad4 [of c] "4.prems" show ?thesis by auto
  next
    case (4 a' b' c' r')
    with "4.prems" have r: "base64 r = base64 r'" by simp
    from 4 "4.prems"
      group3_inj [OF byte_lt [of a] byte_lt [of a'] byte_lt [of b] byte_lt [of b']
        byte_lt [of c] byte_lt [of c']]
    have "unat a = unat a' \<and> unat b = unat b' \<and> unat c = unat c'" by simp
    with "4.IH" [OF r] 4 show ?thesis by (auto intro: byte_eqI)
  qed
qed

lemma utf8Bytes_byte: "c < 0x110000 \<Longrightarrow> b \<in> set (utf8Bytes c) \<Longrightarrow> b < 256"
  unfolding utf8Bytes_def
  by (auto split: if_splits)

lemma utf8Bytes_nonempty: "utf8Bytes c \<noteq> []"
  by (simp add: utf8Bytes_def)

lemma utf8_2: "c < 0x800 \<Longrightarrow> c div 64 < 32" for c :: nat by simp
lemma utf8_3: "c < 0x10000 \<Longrightarrow> c div 4096 < 16" for c :: nat by simp
lemma utf8_4: "c < 0x110000 \<Longrightarrow> c div 262144 < 8" for c :: nat by simp

lemma utf8Bytes_prefix_inj:
  assumes "c < 0x110000" "d < 0x110000" "utf8Bytes c @ r = utf8Bytes d @ s"
  shows "c = d \<and> r = s"
proof -
  consider (1) "c < 0x80" | (2) "0x80 \<le> c" "c < 0x800" | (3) "0x800 \<le> c" "c < 0x10000"
    | (4) "0x10000 \<le> c" by linarith
  then show ?thesis
  proof cases
    case 1
    then show ?thesis using assms utf8_2 [of d] utf8_3 [of d] utf8_4 [of d]
      by (auto simp: utf8Bytes_def split: if_splits)
  next
    case 2
    show ?thesis
    proof (cases "0x80 \<le> d \<and> d < 0x800")
      case True
      with 2 assms have "c div 64 = d div 64" "c mod 64 = d mod 64" "r = s"
        by (auto simp: utf8Bytes_def)
      then show ?thesis by (auto intro: joinI)
    next
      case False
      with 2 assms utf8_2 [of c] utf8_3 [of d] utf8_4 [of d] show ?thesis
        by (auto simp: utf8Bytes_def split: if_splits)
    qed
  next
    case 3
    show ?thesis
    proof (cases "0x800 \<le> d \<and> d < 0x10000")
      case True
      with 3 assms have e: "c div 4096 = d div 4096" "(c div 64) mod 64 = (d div 64) mod 64"
        "c mod 64 = d mod 64" "r = s"
        by (auto simp: utf8Bytes_def)
      have "c div 64 div 64 = d div 64 div 64" using e(1) by (simp add: div_mult2_eq [symmetric])
      then have "c div 64 = d div 64" using e(2) by (rule joinI)
      then have "c = d" using e(3) by (rule joinI)
      with e show ?thesis by simp
    next
      case False
      with 3 assms utf8_2 [of d] utf8_3 [of c] utf8_4 [of d] show ?thesis
        by (auto simp: utf8Bytes_def split: if_splits)
    qed
  next
    case 4
    show ?thesis
    proof (cases "0x10000 \<le> d")
      case True
      with 4 assms have e: "c div 262144 = d div 262144"
        "(c div 4096) mod 64 = (d div 4096) mod 64"
        "(c div 64) mod 64 = (d div 64) mod 64"
        "c mod 64 = d mod 64" "r = s"
        by (auto simp: utf8Bytes_def)
      have "c div 4096 div 64 = d div 4096 div 64" using e(1) by (simp add: div_mult2_eq [symmetric])
      then have "c div 4096 = d div 4096" using e(2) by (rule joinI)
      then have "c div 64 div 64 = d div 64 div 64" by (simp add: div_mult2_eq [symmetric])
      then have "c div 64 = d div 64" using e(3) by (rule joinI)
      then have "c = d" using e(4) by (rule joinI)
      with e show ?thesis by simp
    next
      case False
      with 4 assms utf8_2 [of d] utf8_3 [of d] utf8_4 [of c] show ?thesis
        by (auto simp: utf8Bytes_def split: if_splits)
    qed
  qed
qed

lemma utf8_concat_inj:
  assumes "\<forall>c \<in> set cs. c < 0x110000" "\<forall>d \<in> set ds. d < 0x110000"
    and "concat (map utf8Bytes cs) = concat (map utf8Bytes ds)"
  shows "cs = ds"
  using assms
proof (induction cs arbitrary: ds)
  case Nil
  then show ?case by (cases ds) (auto simp: utf8Bytes_nonempty)
next
  case (Cons c cs)
  show ?case
  proof (cases ds)
    case Nil
    with Cons.prems show ?thesis by (auto simp: utf8Bytes_nonempty)
  next
    case (Cons d ds')
    with Cons.prems have "utf8Bytes c @ concat (map utf8Bytes cs)
        = utf8Bytes d @ concat (map utf8Bytes ds')" "c < 0x110000" "d < 0x110000"
      by simp_all
    from utf8Bytes_prefix_inj [OF this(2,3,1)]
    have "c = d" "concat (map utf8Bytes cs) = concat (map utf8Bytes ds')" by simp_all
    with Cons.IH [of ds'] Cons.prems Cons show ?thesis by simp
  qed
qed

lemma bytes_of_nat_inj:
  assumes "\<forall>b \<in> set xs. b < 256" "\<forall>b \<in> set ys. b < 256"
    and "map of_nat xs = (map of_nat ys :: 8 word list)"
  shows "xs = ys"
proof -
  have "map unat (map of_nat xs :: 8 word list) = xs" if "\<forall>b \<in> set xs. b < 256" for xs
    using that by (induction xs) (simp_all add: unat_of_nat)
  with assms show ?thesis by metis
qed

lemma unit_lt: "unat (u :: 16 word) < 65536"
  using unsigned_less [of u, where 'a = nat] by simp

lemma codePoints_range: "c \<in> set (codePoints s) \<Longrightarrow> c < 0x110000"
proof (induction s arbitrary: c rule: codePoints.induct)
  case 1
  then show ?case by simp
next
  case (2 u)
  with unit_lt [of u] show ?case by (auto split: if_splits)
next
  case (3 u v r)
  with unit_lt [of u] show ?case
    by (auto simp: isHighSurrogate_def isLowSurrogate_def split: if_splits)
qed

lemma unit_eqI: "unat (a :: 16 word) = unat b \<Longrightarrow> a = b"
  by (simp add: word_unat_eq_iff)

lemma pair_inj:
  assumes "isHighSurrogate u" "isLowSurrogate v" "isHighSurrogate u'" "isLowSurrogate v'"
    and "0x10000 + (unat u - 0xD800) * 0x400 + (unat v - 0xDC00)
       = 0x10000 + (unat u' - 0xD800) * 0x400 + (unat v' - 0xDC00)"
  shows "u = u' \<and> v = v'"
proof -
  have "unat v - 0xDC00 < 0x400" "unat v' - 0xDC00 < 0x400"
    using assms by (auto simp: isLowSurrogate_def)
  moreover have "(unat u - 0xD800) * 0x400 + (unat v - 0xDC00)
       = (unat u' - 0xD800) * 0x400 + (unat v' - 0xDC00)" using assms(5) by simp
  ultimately have "unat u - 0xD800 = unat u' - 0xD800 \<and> unat v - 0xDC00 = unat v' - 0xDC00"
    by (rule digits_inj)
  then have "unat u = unat u'" "unat v = unat v'"
    using assms by (auto simp: isHighSurrogate_def isLowSurrogate_def)
  then show ?thesis by (auto intro: unit_eqI)
qed

lemma codePoints_wellFormed_inj:
  "wellFormed xs \<Longrightarrow> wellFormed ys \<Longrightarrow> codePoints xs = codePoints ys \<Longrightarrow> xs = ys"
proof (induction xs arbitrary: ys rule: codePoints.induct)
  case 1
  then show ?case by (cases ys rule: codePoints.cases) (auto split: if_splits)
next
  case (2 u)
  from 2 show ?case
  proof (cases ys rule: codePoints.cases)
    case (3 u' v' r')
    with 2 unit_lt [of u] show ?thesis
      by (cases r' rule: codePoints.cases) (auto split: if_splits intro: unit_eqI)
  qed (auto intro: unit_eqI)
next
  case (3 u v r)
  note b = unit_lt [of u]
  show ?case
  proof (cases "isHighSurrogate u")
    case True
    with "3.prems" have lo: "isLowSurrogate v" and wr: "wellFormed r" by simp_all
    show ?thesis
    proof (cases ys rule: codePoints.cases)
      case 1
      with "3.prems" True lo show ?thesis by simp
    next
      case (2 u')
      with unit_lt [of u'] "3.prems" True lo show ?thesis by (auto split: if_splits)
    next
      case (3 u' v' r')
      note b' = unit_lt [of u']
      show ?thesis
      proof (cases "isHighSurrogate u'")
        case h: True
        with 3 "3.prems" have lo': "isLowSurrogate v'" and wr': "wellFormed r'" by simp_all
        from 3 "3.prems"(3) True lo h lo'
        have e: "0x10000 + (unat u - 0xD800) * 0x400 + (unat v - 0xDC00)
           = 0x10000 + (unat u' - 0xD800) * 0x400 + (unat v' - 0xDC00)"
          and er: "codePoints r = codePoints r'" by simp_all
        from pair_inj [OF True lo h lo' e] have "u = u'" "v = v'" by simp_all
        moreover have "r = r'" using "3.IH"(1) True lo wr wr' er by simp
        ultimately show ?thesis using 3 by simp
      next
        case False
        with 3 "3.prems" True lo b' show ?thesis by (auto split: if_splits)
      qed
    qed
  next
    case False
    with "3.prems" have nl: "\<not> isLowSurrogate u" and wr: "wellFormed (v # r)" by simp_all
    show ?thesis
    proof (cases ys rule: codePoints.cases)
      case 1
      with "3.prems" False nl show ?thesis by simp
    next
      case (2 u')
      with "3.prems" False nl show ?thesis
        by (cases r rule: codePoints.cases) (auto split: if_splits)
    next
      case (3 u' v' r')
      show ?thesis
      proof (cases "isHighSurrogate u'")
        case h: True
        with 3 "3.prems" False nl b show ?thesis by (auto split: if_splits)
      next
        case nh: False
        with 3 "3.prems" have nl': "\<not> isLowSurrogate u'" and wr': "wellFormed (v' # r')"
          by simp_all
        from 3 "3.prems"(3) False nl nh nl'
        have "unat u = unat u'" and er: "codePoints (v # r) = codePoints (v' # r')" by simp_all
        then have "u = u'" by (auto intro: unit_eqI)
        moreover have "v # r = v' # r'" using "3.IH"(2,3) False nl wr wr' er by auto
        ultimately show ?thesis using 3 by simp
      qed
    qed
  qed
qed

lemma encodeName_inj_wellFormed:
  assumes "wellFormed a" "wellFormed b" "encodeName a = encodeName b"
  shows "a = b"
proof -
  from assms(3) have "base64 (bufferFrom a) = base64 (bufferFrom b)"
    unfolding encodeName_def by (rule lit_inj)
  then have "bufferFrom a = bufferFrom b" by (rule base64_inj)
  moreover have "\<forall>x \<in> set (concat (map utf8Bytes (codePoints s))). x < 256" for s
    using codePoints_range utf8Bytes_byte by fastforce
  ultimately have "concat (map utf8Bytes (codePoints a)) = concat (map utf8Bytes (codePoints b))"
    unfolding bufferFrom_def using bytes_of_nat_inj by blast
  then have "codePoints a = codePoints b"
    using utf8_concat_inj codePoints_range by blast
  with assms(1,2) show ?thesis by (rule codePoints_wellFormed_inj)
qed

text \<open>
  C7 (as amended). \<^verbatim>\<open>encodeName\<close> is a function of the name alone: equal names have
  equal keys. It is injective on well-formed names: two distinct names in which every
  surrogate code unit is half of a pair have distinct keys.
\<close>

theorem encodeName_deterministic_injective_wellFormed:
  "(a = b \<longrightarrow> encodeName a = encodeName b) \<and>
   (wellFormed a \<and> wellFormed b \<and> a \<noteq> b \<longrightarrow> encodeName a \<noteq> encodeName b)"
  using encodeName_inj_wellFormed [of a b] by auto

lemma wellFormed_Ann_Bob: "wellFormed (lit ''Ann'') \<and> wellFormed (lit ''Bob'')"
  by (simp add: lit_def isHighSurrogate_def isLowSurrogate_def)

lemma lit_Ann_neq_Bob: "lit ''Ann'' \<noteq> lit ''Bob''"
  by (simp add: lit_def)

theorem encodeName_witness:
  "wellFormed (lit ''Ann'') \<and> wellFormed (lit ''Bob'') \<and> lit ''Ann'' \<noteq> lit ''Bob'' \<and>
   encodeName (lit ''Ann'') \<noteq> encodeName (lit ''Bob'') \<and>
   encodeName (lit ''Ann'') = encodeName (lit ''Ann'')"
  using encodeName_deterministic_injective_wellFormed [of "lit ''Ann''" "lit ''Bob''"]
    wellFormed_Ann_Bob lit_Ann_neq_Bob
  by simp

text \<open>
  C7 as stated fails: two distinct names, each a lone surrogate, are both written as
  U+FFFD and have the same key.
\<close>

theorem encodeName_collision:
  "[0xD800 :: 16 word] \<noteq> [0xDBFF] \<and> encodeName [0xD800] = encodeName [0xDBFF]"
  by (simp add: encodeName_def bufferFrom_def isHighSurrogate_def isLowSurrogate_def)

subsection \<open>Deduplication\<close>

text \<open>
  C8. With the service answering from a fixed list of stored records, the names that
  \<^verbatim>\<open>filterExistingPersons\<close> leaves are left unchanged by a second filtering, whenever it
  is made.
\<close>

theorem filterExistingPersons_idempotent:
  assumes "serviceFind e = storeFind st"
  shows "\<exists>once. fst (filterExistingPersons e persons tr) = Inr once \<and>
           fst (filterExistingPersons e once tr') = Inr once"
proof -
  define ex where "ex = filter (\<lambda>p. \<exists>n \<in> set (map encodeName persons). nameEncoded p = Some n) st"
  define once where "once = filter (\<lambda>person. person \<notin> set (map name ex)) persons"
  define ex' where "ex' = filter (\<lambda>p. \<exists>n \<in> set (map encodeName once). nameEncoded p = Some n) st"
  have 1: "fst (filterExistingPersons e persons tr) = Inr once"
    using assms by (simp add: filterExistingPersons_def storeFind_def ex_def once_def)
  have 2: "fst (filterExistingPersons e once tr')
      = Inr (filter (\<lambda>person. person \<notin> set (map name ex')) once)"
    using assms by (simp add: filterExistingPersons_def storeFind_def ex'_def)
  have "set once \<subseteq> set persons" by (auto simp: once_def)
  then have "set (map name ex') \<subseteq> set (map name ex)"
    by (auto simp: ex_def ex'_def)
  moreover have "\<forall>p \<in> set once. p \<notin> set (map name ex)" by (auto simp: once_def)
  ultimately have "filter (\<lambda>person. person \<notin> set (map name ex')) once = once"
    by (intro filter_True) blast
  with 1 2 show ?thesis by simp
qed

lemma lit_Bob_neq_Ann: "lit ''Bob'' \<noteq> lit ''Ann''"
  by (simp add: lit_def)

theorem filterExistingPersons_idempotent_witness:
  "serviceFind demoEnv = storeFind [stored (lit ''Ann'')] \<and>
   fst (filterExistingPersons demoEnv [lit ''Ann'', lit ''Bob''] []) = Inr [lit ''Bob''] \<and>
   fst (filterExistingPersons demoEnv [lit ''Bob''] [Find []]) = Inr [lit ''Bob'']"
proof -
  have h: "serviceFind demoEnv = storeFind [stored (lit ''Ann'')]"
    by (simp add: demoEnv_def)
  have 1: "fst (filterExistingPersons demoEnv [lit ''Ann'', lit ''Bob''] []) = Inr [lit ''Bob'']"
    using lit_Bob_neq_Ann
    by (simp add: filterExistingPersons_def demoEnv_def storeFind_def stored_def blank_def)
  from filterExistingPersons_idempotent [OF h, of "[lit ''Ann'', lit ''Bob'']" "[]" "[Find []]"] 1 h
  show ?thesis by simp
qed

subsection \<open>The stages of \<^verbatim>\<open>init\<close>\<close>

lemma getVirtualPersons_trace:
  assumes "getVirtualPersons e mn mx tr = (Inr names, tr1)"
  shows "\<exists>request encodedNames.
           tr1 = tr @ [ChatCompletion request, Find encodedNames]
                 @ (if int (length names) < mn then [Warn ''not enough persons''] else [])"
  using assms
  unfolding getVirtualPersons_def getRandomVirtualPersons_def filterExistingPersons_def
  by (auto simp: Let_def split: sum.splits chatResponse.splits if_splits)

text \<open>
  C2. When deduplication leaves no candidate, \<^verbatim>\<open>init\<close> returns with the trace as
  \<^verbatim>\<open>getVirtualPersons\<close> left it: the names request, the \<^verbatim>\<open>find\<close> of the
  deduplication and possibly the console warning, and no call after them.
\<close>

theorem init_no_call_after_empty_deduplication:
  assumes "getVirtualPersons e mn mx tr = (Inr [], tr1)"
  shows "init e mn mx tr = (Inr (), tr1) \<and>
         (\<exists>request encodedNames.
            tr1 = tr @ [ChatCompletion request, Find encodedNames]
                  @ (if 0 < mn then [Warn ''not enough persons''] else []))"
proof -
  have "init e mn mx tr = (Inr (), tr1)"
    using assms
    by (simp add: init_def arrayTruthy_def resolvePersonsData_def savePersonsData_def)
  moreover from getVirtualPersons_trace [OF assms]
  have "\<exists>request encodedNames.
          tr1 = tr @ [ChatCompletion request, Find encodedNames]
                @ (if 0 < mn then [Warn ''not enough persons''] else [])"
    by simp
  ultimately show ?thesis by blast
qed

lemma allStored_getVirtualPersons:
  "getVirtualPersons allStoredEnv 1 3 [] =
     (Inr [], [ChatCompletion namesRequest,
               Find [encodeName (lit ''Ann''), encodeName (lit ''Bob'')],
               Warn ''not enough persons''])"
  by (simp add: getVirtualPersons_def getRandomVirtualPersons_def filterExistingPersons_def
      allStoredEnv_def demoEnv_def storeFind_def stored_def blank_def namesRequest_def)

theorem init_no_call_after_empty_deduplication_witness:
  "getVirtualPersons allStoredEnv 1 3 [] =
     (Inr [], [ChatCompletion namesRequest,
               Find [encodeName (lit ''Ann''), encodeName (lit ''Bob'')],
               Warn ''not enough persons'']) \<and>
   init allStoredEnv 1 3 [] =
     (Inr (), [ChatCompletion namesRequest,
               Find [encodeName (lit ''Ann''), encodeName (lit ''Bob'')],
               Warn ''not enough persons''])"
  using init_no_call_after_empty_deduplication [OF allStored_getVirtualPersons]
    allStored_getVirtualPersons
  by simp

text \<open>
  C1 fails on the code. For one name and a text adapter that answers with a biography and a
  status, \<^verbatim>\<open>resolvePersonsData\<close> makes the request and then throws: it returns no list.
\<close>

theorem resolvePersonsData_throws_on_a_name:
  "resolvePersonsData demoEnv [CandidateName (lit ''Ann'')] [] =
     (Inl TypeError,
      [ChatCompletion \<lparr>max_tokens = Some 1000,
                       prompt = getPersonDataPrompt demoEnv (CandidateName (lit ''Ann'')),
                       responseFormat = PersonDataJsonFormat\<rparr>])"
  by (simp add: resolvePersonsData_def resolved_def demoEnv_def)

text \<open>The same for every instance: a list with an unresolved candidate is never returned.\<close>

lemma resolvePersonsDataLoop_unresolved:
  "c \<in> set persons \<Longrightarrow> \<not> resolved c \<Longrightarrow>
   \<exists>err. fst (resolvePersonsDataLoop e persons acc tr) = Inl err"
  by (induction persons arbitrary: acc tr) (auto simp: Let_def split: sum.splits)

text \<open>Candidates that carry both fields are returned as they are, with no request.\<close>

lemma resolvePersonsDataLoop_resolved:
  "\<forall>c \<in> set persons. resolved c \<Longrightarrow>
   resolvePersonsDataLoop e persons acc tr = (Inr (acc @ persons), tr)"
  by (induction persons arbitrary: acc) simp_all

lemma resolvePersonsData_resolved:
  "\<forall>c \<in> set persons. resolved c \<Longrightarrow> resolvePersonsData e persons tr = (Inr persons, tr)"
  using resolvePersonsDataLoop_resolved [of persons e "[]" tr]
  by (simp add: resolvePersonsData_def)

subsection \<open>\<^verbatim>\<open>savePersonsData\<close>\<close>

lemma savePersonsDataLoop_ok:
  assumes "\<forall>h p. \<exists>s. serviceCreate e h p = Inr s"
  shows "\<exists>out. savePersonsDataLoop e xs acc tr =
           (Inr (acc @ out),
            tr @ map Create (map (createPayload e) (filter (\<lambda>p. \<not> truthy (ident p)) xs))) \<and>
           length out = length xs \<and>
           (\<forall>i < length xs.
              if truthy (ident (xs ! i)) then out ! i = xs ! i
              else \<exists>h. serviceCreate e h (createPayload e (xs ! i)) = Inr (out ! i))"
proof (induction xs arbitrary: acc tr)
  case Nil
  then show ?case by simp
next
  case (Cons x xs)
  show ?case
  proof (cases "truthy (ident x)")
    case True
    from Cons.IH [of "acc @ [x]" tr] obtain out where
      o: "savePersonsDataLoop e xs (acc @ [x]) tr =
            (Inr ((acc @ [x]) @ out),
             tr @ map Create (map (createPayload e) (filter (\<lambda>p. \<not> truthy (ident p)) xs)))"
         "length out = length xs"
         "\<forall>i < length xs.
            if truthy (ident (xs ! i)) then out ! i = xs ! i
            else \<exists>h. serviceCreate e h (createPayload e (xs ! i)) = Inr (out ! i)"
      by blast
    have "\<forall>i < length (x # xs).
            if truthy (ident ((x # xs) ! i)) then (x # out) ! i = (x # xs) ! i
            else \<exists>h. serviceCreate e h (createPayload e ((x # xs) ! i)) = Inr ((x # out) ! i)"
      using o(3) True by (auto simp: nth_Cons split: nat.splits)
    with o(1,2) True show ?thesis
      by (intro exI [of _ "x # out"]) simp
  next
    case False
    from assms obtain s where s: "serviceCreate e tr (createPayload e x) = Inr s" by blast
    from Cons.IH [of "acc @ [s]" "tr @ [Create (createPayload e x)]"] obtain out where
      o: "savePersonsDataLoop e xs (acc @ [s]) (tr @ [Create (createPayload e x)]) =
            (Inr ((acc @ [s]) @ out),
             (tr @ [Create (createPayload e x)])
             @ map Create (map (createPayload e) (filter (\<lambda>p. \<not> truthy (ident p)) xs)))"
         "length out = length xs"
         "\<forall>i < length xs.
            if truthy (ident (xs ! i)) then out ! i = xs ! i
            else \<exists>h. serviceCreate e h (createPayload e (xs ! i)) = Inr (out ! i)"
      by blast
    have "\<forall>i < length (x # xs).
            if truthy (ident ((x # xs) ! i)) then (s # out) ! i = (x # xs) ! i
            else \<exists>h. serviceCreate e h (createPayload e ((x # xs) ! i)) = Inr ((s # out) ! i)"
      using o(3) False s by (auto simp: nth_Cons split: nat.splits)
    with o(1,2) False s show ?thesis
      by (intro exI [of _ "s # out"]) (simp add: Let_def)
  qed
qed

text \<open>
  C4. While the service accepts the creates, \<^verbatim>\<open>savePersonsData\<close> returns one record per
  input record, in input order: a record with a storage identifier is returned as it is, a
  record without one is replaced by the answer to its create call. The calls it makes are
  exactly one create per record without an identifier, in input order, and the payload
  keeps the record's fields and adds \<^verbatim>\<open>nameEncoded\<close>, \<^verbatim>\<open>link\<close> and the project
  and owner references.
\<close>

theorem savePersonsData_creates_only_unsaved:
  assumes "\<forall>h p. \<exists>s. serviceCreate e h p = Inr s"
  shows "(\<exists>out. savePersonsData e xs tr =
            (Inr out,
             tr @ map Create (map (createPayload e) (filter (\<lambda>p. \<not> truthy (ident p)) xs))) \<and>
            length out = length xs \<and>
            (\<forall>i < length xs.
               if truthy (ident (xs ! i)) then out ! i = xs ! i
               else \<exists>h. serviceCreate e h (createPayload e (xs ! i)) = Inr (out ! i))) \<and>
         name (createPayload e p) = name p \<and>
         biography (createPayload e p) = biography p \<and>
         status (createPayload e p) = status p \<and>
         headshot (createPayload e p) = headshot p \<and>
         ident (createPayload e p) = ident p \<and>
         nameEncoded (createPayload e p) = Some (encodeName (name p)) \<and>
         link (createPayload e p) = Some (createFileName e (name p)) \<and>
         projectId (createPayload e p) = Some (thisProjectId e) \<and>
         userId (createPayload e p) = Some (settingsUserId e) \<and>
         projectName (createPayload e p) = Some (thisProjectName e)"
  using savePersonsDataLoop_ok [OF assms, of xs "[]" tr]
  by (simp add: savePersonsData_def createPayload_def)

lemma demoEnv_creates: "\<forall>h p. \<exists>s. serviceCreate demoEnv h p = Inr s"
  by (simp add: demoEnv_def)

theorem savePersonsData_creates_only_unsaved_witness:
  "(\<forall>h p. \<exists>s. serviceCreate demoEnv h p = Inr s) \<and>
   (\<exists>out. savePersonsData demoEnv [stored (lit ''Ann''), blank (lit ''Bob'')] [] =
      (Inr out, [Create (createPayload demoEnv (blank (lit ''Bob'')))]) \<and>
      length out = 2 \<and> out ! 0 = stored (lit ''Ann'')) \<and>
   nameEncoded (createPayload demoEnv (blank (lit ''Bob''))) = Some (encodeName (lit ''Bob''))"
proof -
  have t: "truthy (ident (stored (lit ''Ann'')))" "\<not> truthy (ident (blank (lit ''Bob'')))"
    by (simp_all add: stored_def blank_def lit_def)
  from savePersonsData_creates_only_unsaved [OF demoEnv_creates,
      of "[stored (lit ''Ann''), blank (lit ''Bob'')]" "[]" "blank (lit ''Bob'')"]
  obtain out where
    o: "savePersonsData demoEnv [stored (lit ''Ann''), blank (lit ''Bob'')] [] =
          (Inr out,
           [] @ map Create (map (createPayload demoEnv)
                  (filter (\<lambda>p. \<not> truthy (ident p)) [stored (lit ''Ann''), blank (lit ''Bob'')])))"
       "length out = length [stored (lit ''Ann''), blank (lit ''Bob'')]"
       "\<forall>i < length [stored (lit ''Ann''), blank (lit ''Bob'')].
          if truthy (ident ([stored (lit ''Ann''), blank (lit ''Bob'')] ! i))
          then out ! i = [stored (lit ''Ann''), blank (lit ''Bob'')] ! i
          else \<exists>h. serviceCreate demoEnv h
                 (createPayload demoEnv ([stored (lit ''Ann''), blank (lit ''Bob'')] ! i))
               = Inr (out ! i)"
    and n: "nameEncoded (createPayload demoEnv (blank (lit ''Bob''))) = Some (encodeName (name (blank (lit ''Bob''))))"
    by blast
  from o(3) t have "out ! 0 = stored (lit ''Ann'')" by auto
  with o(1,2) t n demoEnv_creates show ?thesis
    by (auto simp: blank_def)
qed

subsection \<open>\<^verbatim>\<open>generateHeadshot\<close> and \<^verbatim>\<open>resolvePersonImages\<close>\<close>

lemma generateHeadshot_trace:
  "\<exists>rest. snd (generateHeadshot e n tr) = tr @ GetPicture (headshotRequest n) # rest \<and>
          (\<forall>ev \<in> set rest. \<not> isGetPicture ev)"
  by (auto simp: generateHeadshot_def Let_def isGetPicture_def split: sum.splits option.splits)



lemma resolvePersonImages_skip:
  "h a = Some p \<Longrightarrow> truthy (headshot p) \<Longrightarrow>
   resolvePersonImages e (a # rest) (h, tr) = resolvePersonImages e rest (h, tr)"
  by simp

text \<open>One iteration for a record without a headshot, when no call is rejected.\<close>

lemma resolvePersonImages_step:
  assumes "h a = Some p" "\<not> truthy (headshot p)"
    and "generateHeadshot e (name p) tr = (Inr hs, tr1)"
    and "patched = (if truthy hs then p\<lparr>headshot := hs\<rparr> else p)"
    and "servicePatch e tr1 (ident p) patched = Inr u"
  shows "resolvePersonImages e (a # rest) (h, tr) =
           resolvePersonImages e rest
             (h(a \<mapsto> patched),
              tr1 @ [Patch (ident p) patched,
                     Delay (floorRandom (mathRandom e (tr1 @ [Patch (ident p) patched]))
                       1500 2500)])"
proof (cases "truthy hs")
  case True
  with assms show ?thesis by (simp add: Let_def)
next
  case False
  with assms show ?thesis by (simp add: Let_def)
qed

lemma generateHeadshot_events:
  "\<exists>new. snd (generateHeadshot e n tr) = tr @ new \<and>
         (\<forall>rq. GetPicture rq \<in> set new \<longrightarrow> rq = headshotRequest n) \<and>
         length (filter isGetPicture new) \<le> 1"
  by (auto simp: generateHeadshot_def Let_def isGetPicture_def split: sum.splits option.splits)

lemma lacking_update:
  assumes "\<not> hasHeadshot h a"
  shows "length (filter (\<lambda>b. \<not> hasHeadshot (h(a \<mapsto> q)) b) refs)
           \<le> length (filter (\<lambda>b. \<not> hasHeadshot h b) refs)"
proof (induction refs)
  case Nil
  then show ?case by simp
next
  case (Cons b refs)
  then show ?case using assms by (auto simp: hasHeadshot_def)
qed

text \<open>
  What a run of \<^verbatim>\<open>resolvePersonImages\<close> adds to the trace: every image request in it is
  the headshot request for the name of a record of the list, and there are at most as many
  as the list has entries without a headshot.
\<close>

lemma resolvePersonImages_events:
  "\<exists>new. snd (snd (resolvePersonImages e refs (h, tr))) = tr @ new \<and>
         (\<forall>rq. GetPicture rq \<in> set new \<longrightarrow>
            (\<exists>a \<in> set refs. \<exists>p. h a = Some p \<and> rq = headshotRequest (name p))) \<and>
         length (filter isGetPicture new) \<le> length (filter (\<lambda>a. \<not> hasHeadshot h a) refs)"
proof (induction refs arbitrary: h tr)
  case Nil
  then show ?case by simp
next
  case (Cons a refs)
  show ?case
  proof (cases "h a")
    case None
    then show ?thesis by simp
  next
    case (Some p)
    show ?thesis
    proof (cases "truthy (headshot p)")
      case True
      from Cons.IH [of h tr] obtain new where
        n: "snd (snd (resolvePersonImages e refs (h, tr))) = tr @ new"
           "\<forall>rq. GetPicture rq \<in> set new \<longrightarrow>
              (\<exists>a \<in> set refs. \<exists>p. h a = Some p \<and> rq = headshotRequest (name p))"
           "length (filter isGetPicture new) \<le> length (filter (\<lambda>a. \<not> hasHeadshot h a) refs)"
        by blast
      have "hasHeadshot h a" using Some True by (simp add: hasHeadshot_def)
      with n Some True show ?thesis
        by (intro exI [of _ new]) auto
    next
      case False
      then have lack: "\<not> hasHeadshot h a" using Some by (simp add: hasHeadshot_def)
      from generateHeadshot_events [of e "name p" tr] obtain g where
        g: "snd (generateHeadshot e (name p) tr) = tr @ g"
           "\<forall>rq. GetPicture rq \<in> set g \<longrightarrow> rq = headshotRequest (name p)"
           "length (filter isGetPicture g) \<le> 1"
        by blast
      obtain r tr1 where gh: "generateHeadshot e (name p) tr = (r, tr1)"
        by (cases "generateHeadshot e (name p) tr")
      with g(1) have tr1: "tr1 = tr @ g" by simp
      show ?thesis
      proof (cases r)
        case (Inl err)
        have "resolvePersonImages e (a # refs) (h, tr) = (Inl err, h, tr1)"
          using Some False gh Inl by simp
        moreover have "length (filter isGetPicture g)
            \<le> length (filter (\<lambda>b. \<not> hasHeadshot h b) (a # refs))"
          using g(3) lack by simp
        moreover have "\<forall>rq. GetPicture rq \<in> set g \<longrightarrow>
            (\<exists>b \<in> set (a # refs). \<exists>q. h b = Some q \<and> rq = headshotRequest (name q))"
          using g(2) Some by auto
        ultimately show ?thesis
          using tr1 by (intro exI [of _ g]) simp
      next
        case (Inr hs)
        define patched where "patched = (if truthy hs then p\<lparr>headshot := hs\<rparr> else p)"
        have np: "name patched = name p" "ident patched = ident p"
          by (simp_all add: patched_def)
        show ?thesis
        proof (cases "servicePatch e tr1 (ident p) patched")
          case (Inl err)
          have "resolvePersonImages e (a # refs) (h, tr) =
                  (Inl err, h(a \<mapsto> patched), tr1 @ [Patch (ident p) patched])"
            using Some False gh Inr Inl np by (simp add: Let_def patched_def [symmetric])
          moreover have "filter isGetPicture (g @ [Patch (ident p) patched]) = filter isGetPicture g"
            by (simp add: isGetPicture_def)
          then have "length (filter isGetPicture (g @ [Patch (ident p) patched]))
              \<le> length (filter (\<lambda>b. \<not> hasHeadshot h b) (a # refs))"
            using g(3) lack by simp
          moreover have "\<forall>rq. GetPicture rq \<in> set (g @ [Patch (ident p) patched]) \<longrightarrow>
              (\<exists>b \<in> set (a # refs). \<exists>q. h b = Some q \<and> rq = headshotRequest (name q))"
            using g(2) Some by auto
          ultimately show ?thesis
            using tr1 by (intro exI [of _ "g @ [Patch (ident p) patched]"]) simp
        next
          case (Inr u)
          define tr3 where "tr3 = tr1 @ [Patch (ident p) patched,
            Delay (floorRandom (mathRandom e (tr1 @ [Patch (ident p) patched])) 1500 2500)]"
          have step: "resolvePersonImages e (a # refs) (h, tr) =
                  resolvePersonImages e refs (h(a \<mapsto> patched), tr3)"
            using resolvePersonImages_step [where h = h and a = a and p = p and e = e
                and tr = tr and hs = hs and patched = patched and u = u and rest = refs
                and ?tr1.0 = tr1]
              Some False gh \<open>r = Inr hs\<close> Inr
            by (simp add: patched_def tr3_def)
          from Cons.IH [of "h(a \<mapsto> patched)" tr3] obtain new where
            n: "snd (snd (resolvePersonImages e refs (h(a \<mapsto> patched), tr3))) = tr3 @ new"
               "\<forall>rq. GetPicture rq \<in> set new \<longrightarrow>
                  (\<exists>b \<in> set refs. \<exists>q. (h(a \<mapsto> patched)) b = Some q
                     \<and> rq = headshotRequest (name q))"
               "length (filter isGetPicture new)
                  \<le> length (filter (\<lambda>b. \<not> hasHeadshot (h(a \<mapsto> patched)) b) refs)"
            by blast
          let ?mid = "[Patch (ident p) patched,
            Delay (floorRandom (mathRandom e (tr1 @ [Patch (ident p) patched])) 1500 2500)]"
          have 1: "snd (snd (resolvePersonImages e (a # refs) (h, tr))) = tr @ (g @ ?mid @ new)"
            using step n(1) tr1 by (simp add: tr3_def)
          have 2: "\<forall>rq. GetPicture rq \<in> set (g @ ?mid @ new) \<longrightarrow>
                     (\<exists>b \<in> set (a # refs). \<exists>q. h b = Some q \<and> rq = headshotRequest (name q))"
          proof (intro allI impI)
            fix rq
            assume "GetPicture rq \<in> set (g @ ?mid @ new)"
            then consider "GetPicture rq \<in> set g" | "GetPicture rq \<in> set new" by auto
            then show "\<exists>b \<in> set (a # refs). \<exists>q. h b = Some q \<and> rq = headshotRequest (name q)"
            proof cases
              case 1
              with g(2) Some show ?thesis by auto
            next
              case 2
              with n(2) obtain b q where
                b: "b \<in> set refs" "(h(a \<mapsto> patched)) b = Some q" "rq = headshotRequest (name q)"
                by blast
              show ?thesis
              proof (cases "b = a")
                case True
                with b np Some show ?thesis by auto
              next
                case False
                with b show ?thesis by auto
              qed
            qed
          qed
          have "length (filter isGetPicture (g @ ?mid @ new))
                  = length (filter isGetPicture g) + length (filter isGetPicture new)"
            by (simp add: isGetPicture_def)
          also have "\<dots> \<le> 1 + length (filter (\<lambda>b. \<not> hasHeadshot h b) refs)"
            using g(3) n(3) lacking_update [OF lack, of patched refs] by linarith
          also have "\<dots> = length (filter (\<lambda>b. \<not> hasHeadshot h b) (a # refs))"
            using lack by simp
          finally have 3: "length (filter isGetPicture (g @ ?mid @ new))
                  \<le> length (filter (\<lambda>b. \<not> hasHeadshot h b) (a # refs))" .
          from 1 2 3 show ?thesis by blast
        qed
      qed
    qed
  qed
qed

text \<open>
  C5 (as amended). The image request of \<^verbatim>\<open>generateHeadshot\<close> names the backend
  \<^verbatim>\<open>midjourney\<close>, has no styles and the aspect ratio \<^verbatim>\<open>1:1\<close>, and its prompt is the
  person's name between \<^verbatim>\<open>Photo headshot for the \<close> and \<^verbatim>\<open> , Aged 30-40 years old.\<close>
  (a space stands before the comma). Every image request of a run of
  \<^verbatim>\<open>resolvePersonImages\<close> is this request for the name of a record of the list.
\<close>

theorem headshot_request_shape:
  "(\<exists>rest. snd (generateHeadshot e personName tr) =
      tr @ GetPicture \<lparr>serviceName = lit ''midjourney'', styles = [],
                       optionsAspectRatio = lit ''1:1'',
                       query = lit ''Photo headshot for the '' @ personName
                               @ lit '' , Aged 30-40 years old.'',
                       aspectRatio = lit ''1:1''\<rparr> # rest \<and>
      (\<forall>ev \<in> set rest. \<not> isGetPicture ev)) \<and>
   (snd (snd (resolvePersonImages e refs (h, tr))) = tr @ new \<and> GetPicture rq \<in> set new \<longrightarrow>
      serviceName rq = lit ''midjourney'' \<and> styles rq = [] \<and>
      optionsAspectRatio rq = lit ''1:1'' \<and> aspectRatio rq = lit ''1:1'' \<and>
      (\<exists>a \<in> set refs. \<exists>p. h a = Some p \<and>
         query rq = lit ''Photo headshot for the '' @ name p @ lit '' , Aged 30-40 years old.''))"
proof -
  have "\<exists>rest. snd (generateHeadshot e personName tr) =
      tr @ GetPicture \<lparr>serviceName = lit ''midjourney'', styles = [],
                       optionsAspectRatio = lit ''1:1'',
                       query = lit ''Photo headshot for the '' @ personName
                               @ lit '' , Aged 30-40 years old.'',
                       aspectRatio = lit ''1:1''\<rparr> # rest \<and>
      (\<forall>ev \<in> set rest. \<not> isGetPicture ev)"
    using generateHeadshot_trace [of e personName tr] by (simp add: headshotRequest_def)
  moreover have "serviceName rq = lit ''midjourney'' \<and> styles rq = [] \<and>
      optionsAspectRatio rq = lit ''1:1'' \<and> aspectRatio rq = lit ''1:1'' \<and>
      (\<exists>a \<in> set refs. \<exists>p. h a = Some p \<and>
         query rq = lit ''Photo headshot for the '' @ name p @ lit '' , Aged 30-40 years old.'')"
    if "snd (snd (resolvePersonImages e refs (h, tr))) = tr @ new" "GetPicture rq \<in> set new"
  proof -
    from resolvePersonImages_events [of e refs h tr] that
    obtain a p where "a \<in> set refs" "h a = Some p" "rq = headshotRequest (name p)"
      by auto
    then show ?thesis by (auto simp: headshotRequest_def)
  qed
  ultimately show ?thesis by blast
qed

lemma demo_images_run:
  "snd (snd (resolvePersonImages demoEnv [0] (storeOf [stored (lit ''Bob'')], []))) =
     [] @ [GetPicture (headshotRequest (lit ''Bob'')), Warn ''Failed to generate headshot'',
           Patch (Some (lit ''id1'')) (stored (lit ''Bob'')), Delay (floorRandom 0 1500 2500)]"
  by (simp add: storeOf_def stored_def blank_def demoEnv_def generateHeadshot_def Let_def)

theorem headshot_request_shape_witness:
  "snd (snd (resolvePersonImages demoEnv [0] (storeOf [stored (lit ''Bob'')], []))) =
     [] @ [GetPicture (headshotRequest (lit ''Bob'')), Warn ''Failed to generate headshot'',
           Patch (Some (lit ''id1'')) (stored (lit ''Bob'')), Delay (floorRandom 0 1500 2500)] \<and>
   serviceName (headshotRequest (lit ''Bob'')) = lit ''midjourney'' \<and>
   styles (headshotRequest (lit ''Bob'')) = [] \<and>
   optionsAspectRatio (headshotRequest (lit ''Bob'')) = lit ''1:1'' \<and>
   aspectRatio (headshotRequest (lit ''Bob'')) = lit ''1:1'' \<and>
   query (headshotRequest (lit ''Bob'')) =
     lit ''Photo headshot for the '' @ lit ''Bob'' @ lit '' , Aged 30-40 years old.''"
proof -
  have "GetPicture (headshotRequest (lit ''Bob''))
      \<in> set [GetPicture (headshotRequest (lit ''Bob'')), Warn ''Failed to generate headshot'',
           Patch (Some (lit ''id1'')) (stored (lit ''Bob'')), Delay (floorRandom 0 1500 2500)]"
    by simp
  with headshot_request_shape [of demoEnv "lit ''Bob''" "[]" "[0]" "storeOf [stored (lit ''Bob'')]"
      "[GetPicture (headshotRequest (lit ''Bob'')), Warn ''Failed to generate headshot'',
        Patch (Some (lit ''id1'')) (stored (lit ''Bob'')), Delay (floorRandom 0 1500 2500)]"
      "headshotRequest (lit ''Bob'')"]
    demo_images_run
  show ?thesis by (simp add: headshotRequest_def)
qed

text \<open>
  C5 as stated fails: for the name \<^verbatim>\<open>Ann\<close> the prompt requested is not the template
  of the claim with the name substituted.
\<close>

theorem headshot_prompt_has_space_before_comma:
  "snd (generateHeadshot demoEnv (lit ''Ann'') []) =
     [GetPicture (headshotRequest (lit ''Ann'')), Warn ''Failed to generate headshot''] \<and>
   query (headshotRequest (lit ''Ann'')) \<noteq> lit ''Photo headshot for the Ann, Aged 30-40 years old.'' \<and>
   query (headshotRequest (lit ''Ann'')) = lit ''Photo headshot for the Ann , Aged 30-40 years old.''"
  by (simp add: generateHeadshot_def demoEnv_def headshotRequest_def lit_def)

text \<open>
  Records that carry a headshot can be taken out of the list: the run is the same. The set
  \<open>K\<close> holds addresses of such records.
\<close>

lemma resolvePersonImages_drop_carrying:
  assumes "\<forall>a \<in> K. hasHeadshot h a"
  shows "resolvePersonImages e refs (h, tr) =
           resolvePersonImages e (filter (\<lambda>a. a \<notin> K) refs) (h, tr)"
  using assms
proof (induction refs arbitrary: h tr)
  case Nil
  then show ?case by simp
next
  case (Cons a refs)
  show ?case
  proof (cases "a \<in> K")
    case True
    with Cons.prems have "hasHeadshot h a" by blast
    then obtain p where "h a = Some p" "truthy (headshot p)"
      by (auto simp: hasHeadshot_def split: option.splits)
    with True Cons.IH [OF Cons.prems, of tr] show ?thesis by simp
  next
    case False
    have upd: "\<forall>b \<in> K. hasHeadshot (h(a \<mapsto> q)) b" for q
      using Cons.prems False by (auto simp: hasHeadshot_def)
    show ?thesis
    proof (cases "h a")
      case None
      with False show ?thesis by simp
    next
      case (Some p)
      show ?thesis
      proof (cases "truthy (headshot p)")
        case True
        with False Some Cons.IH [OF Cons.prems, of tr] show ?thesis by simp
      next
        case nt: False
        obtain r tr1 where gh: "generateHeadshot e (name p) tr = (r, tr1)"
          by (cases "generateHeadshot e (name p) tr")
        show ?thesis
        proof (cases r)
          case (Inl err)
          with False Some nt gh show ?thesis by simp
        next
          case (Inr hs)
          define patched where "patched = (if truthy hs then p\<lparr>headshot := hs\<rparr> else p)"
          have ip: "ident patched = ident p" by (simp add: patched_def)
          show ?thesis
          proof (cases "servicePatch e tr1 (ident p) patched")
            case (Inl err)
            with False Some nt gh \<open>r = Inr hs\<close> ip show ?thesis
              by (simp add: Let_def patched_def [symmetric])
          next
            case (Inr u)
            define tr3 where "tr3 = tr1 @ [Patch (ident p) patched,
              Delay (floorRandom (mathRandom e (tr1 @ [Patch (ident p) patched])) 1500 2500)]"
            have step: "resolvePersonImages e (a # rest) (h, tr) =
                    resolvePersonImages e rest (h(a \<mapsto> patched), tr3)" for rest
              using resolvePersonImages_step [where h = h and a = a and p = p and e = e
                  and tr = tr and hs = hs and patched = patched and u = u and rest = rest
                  and ?tr1.0 = tr1]
                Some nt gh \<open>r = Inr hs\<close> Inr
              by (simp add: patched_def tr3_def)
            have "resolvePersonImages e (a # refs) (h, tr) =
                    resolvePersonImages e refs (h(a \<mapsto> patched), tr3)"
              by (rule step)
            also have "\<dots> = resolvePersonImages e (filter (\<lambda>a. a \<notin> K) refs)
                    (h(a \<mapsto> patched), tr3)"
              by (rule Cons.IH [OF upd])
            also have "\<dots> = resolvePersonImages e (a # filter (\<lambda>a. a \<notin> K) refs) (h, tr)"
              by (rule step [symmetric])
            also have "a # filter (\<lambda>a. a \<notin> K) refs = filter (\<lambda>a. a \<notin> K) (a # refs)"
              using False by simp
            finally show ?thesis .
          qed
        qed
      qed
    qed
  qed
qed

text \<open>A record that carries a headshot is the same record after the run.\<close>

lemma resolvePersonImages_keeps_carrying:
  assumes "hasHeadshot h a"
  shows "fst (snd (resolvePersonImages e refs (h, tr))) a = h a"
  using assms
proof (induction refs arbitrary: h tr)
  case Nil
  then show ?case by simp
next
  case (Cons b refs)
  show ?case
  proof (cases "h b")
    case None
    then show ?thesis by simp
  next
    case (Some p)
    show ?thesis
    proof (cases "truthy (headshot p)")
      case True
      with Some Cons.IH [OF Cons.prems, of tr] show ?thesis by simp
    next
      case nt: False
      with Some Cons.prems have ne: "b \<noteq> a" by (auto simp: hasHeadshot_def)
      then have upd: "hasHeadshot (h(b \<mapsto> q)) a" "(h(b \<mapsto> q)) a = h a" for q
        using Cons.prems by (auto simp: hasHeadshot_def)
      obtain r tr1 where gh: "generateHeadshot e (name p) tr = (r, tr1)"
        by (cases "generateHeadshot e (name p) tr")
      show ?thesis
      proof (cases r)
        case (Inl err)
        with Some nt gh show ?thesis by simp
      next
        case (Inr hs)
        define patched where "patched = (if truthy hs then p\<lparr>headshot := hs\<rparr> else p)"
        have ip: "ident patched = ident p" by (simp add: patched_def)
        show ?thesis
        proof (cases "servicePatch e tr1 (ident p) patched")
          case (Inl err)
          with Some nt gh \<open>r = Inr hs\<close> ip ne show ?thesis
            by (simp add: Let_def patched_def [symmetric])
        next
          case (Inr u)
          define tr3 where "tr3 = tr1 @ [Patch (ident p) patched,
            Delay (floorRandom (mathRandom e (tr1 @ [Patch (ident p) patched])) 1500 2500)]"
          have step: "resolvePersonImages e (b # refs) (h, tr) =
                  resolvePersonImages e refs (h(b \<mapsto> patched), tr3)"
            using resolvePersonImages_step [where h = h and a = b and p = p and e = e
                and tr = tr and hs = hs and patched = patched and u = u and rest = refs
                and ?tr1.0 = tr1]
              Some nt gh \<open>r = Inr hs\<close> Inr
            by (simp add: patched_def tr3_def)
          have "fst (snd (resolvePersonImages e refs (h(b \<mapsto> patched), tr3))) a
                  = (h(b \<mapsto> patched)) a"
            by (rule Cons.IH [OF upd(1)])
          then show ?thesis
            unfolding step using upd(2) [of patched] by simp
        qed
      qed
    qed
  qed
qed

text \<open>
  C9. The image requests of a run are those of the run over the records that lack a
  headshot, at most one for each of them: a record that carries a headshot gets none. In
  particular a list of records that all carry one makes no image request.
\<close>

theorem resolvePersonImages_no_request_with_headshot:
  "filter isGetPicture (snd (snd (resolvePersonImages e refs (h, tr)))) =
     filter isGetPicture
       (snd (snd (resolvePersonImages e (filter (\<lambda>a. \<not> hasHeadshot h a) refs) (h, tr)))) \<and>
   (\<exists>new. snd (snd (resolvePersonImages e refs (h, tr))) = tr @ new \<and>
      length (filter isGetPicture new) \<le> length (filter (\<lambda>a. \<not> hasHeadshot h a) refs)) \<and>
   ((\<forall>a \<in> set refs. hasHeadshot h a) \<longrightarrow>
      snd (snd (resolvePersonImages e refs (h, tr))) = tr)"
proof -
  have "\<forall>a \<in> {a. hasHeadshot h a}. hasHeadshot h a" by simp
  from resolvePersonImages_drop_carrying [OF this, of e refs tr]
  have d: "resolvePersonImages e refs (h, tr) =
      resolvePersonImages e (filter (\<lambda>a. \<not> hasHeadshot h a) refs) (h, tr)"
    by simp
  have "filter (\<lambda>a. \<not> hasHeadshot h a) refs = []" if "\<forall>a \<in> set refs. hasHeadshot h a"
    using that by (simp add: filter_empty_conv)
  with d have "snd (snd (resolvePersonImages e refs (h, tr))) = tr"
    if "\<forall>a \<in> set refs. hasHeadshot h a"
    using that by simp
  with d resolvePersonImages_events [of e refs h tr] show ?thesis by auto
qed

lemma annWithHeadshot_carries: "hasHeadshot (storeOf [annWithHeadshot, stored (lit ''Bob'')]) 0"
  by (simp add: hasHeadshot_def storeOf_def annWithHeadshot_def lit_def)

lemma annWithHeadshot_only_carries: "\<forall>a \<in> set [0]. hasHeadshot (storeOf [annWithHeadshot, stored (lit ''Bob'')]) a"
  using annWithHeadshot_carries by simp

theorem resolvePersonImages_no_request_with_headshot_witness:
  "hasHeadshot (storeOf [annWithHeadshot, stored (lit ''Bob'')]) 0 \<and>
   snd (snd (resolvePersonImages demoEnv [0]
      (storeOf [annWithHeadshot, stored (lit ''Bob'')], [Find []]))) = [Find []]"
proof -
  note t = resolvePersonImages_no_request_with_headshot
      [of demoEnv "[0]" "storeOf [annWithHeadshot, stored (lit ''Bob'')]" "[Find []]"]
  from t annWithHeadshot_only_carries
  have "snd (snd (resolvePersonImages demoEnv [0]
      (storeOf [annWithHeadshot, stored (lit ''Bob'')], [Find []]))) = [Find []]"
    by blast
  with annWithHeadshot_carries show ?thesis by blast
qed

text \<open>
  C10. A record that carries a headshot is skipped entirely: the run over a list that
  holds it is the run over the list without it (the same calls, so no image request, no
  patch and no delay on its account, the same store and the same outcome), and the record
  is the same after the run.
\<close>

theorem resolvePersonImages_skips_record_with_headshot:
  assumes "h a = Some p" "truthy (headshot p)"
  shows "resolvePersonImages e (before @ a # rest) (h, tr) =
           resolvePersonImages e (before @ rest) (h, tr) \<and>
         resolvePersonImages e (a # rest) (h, tr) = resolvePersonImages e rest (h, tr) \<and>
         fst (snd (resolvePersonImages e (before @ a # rest) (h, tr))) a = Some p"
proof -
  have c: "hasHeadshot h a" using assms by (simp add: hasHeadshot_def)
  then have k: "\<forall>b \<in> {a}. hasHeadshot h b" by simp
  have "resolvePersonImages e (before @ a # rest) (h, tr) =
      resolvePersonImages e (filter (\<lambda>b. b \<notin> {a}) (before @ a # rest)) (h, tr)"
    by (rule resolvePersonImages_drop_carrying [OF k])
  moreover have "resolvePersonImages e (before @ rest) (h, tr) =
      resolvePersonImages e (filter (\<lambda>b. b \<notin> {a}) (before @ rest)) (h, tr)"
    by (rule resolvePersonImages_drop_carrying [OF k])
  ultimately have 1: "resolvePersonImages e (before @ a # rest) (h, tr) =
           resolvePersonImages e (before @ rest) (h, tr)"
    by simp
  have 2: "resolvePersonImages e (a # rest) (h, tr) = resolvePersonImages e rest (h, tr)"
    using assms by simp
  have 3: "fst (snd (resolvePersonImages e (before @ a # rest) (h, tr))) a = Some p"
    using resolvePersonImages_keeps_carrying [OF c, of e "before @ a # rest" tr] assms(1)
    by simp
  from 1 2 3 show ?thesis by blast
qed

lemma demo_store_0: "storeOf [annWithHeadshot, stored (lit ''Bob'')] 0 = Some annWithHeadshot"
  by (simp add: storeOf_def)

lemma annWithHeadshot_truthy: "truthy (headshot annWithHeadshot)"
  by (simp add: annWithHeadshot_def lit_def)

theorem resolvePersonImages_skips_record_with_headshot_witness:
  "storeOf [annWithHeadshot, stored (lit ''Bob'')] 0 = Some annWithHeadshot \<and>
   truthy (headshot annWithHeadshot) \<and>
   resolvePersonImages demoEnv [1, 0] (storeOf [annWithHeadshot, stored (lit ''Bob'')], []) =
     resolvePersonImages demoEnv [1] (storeOf [annWithHeadshot, stored (lit ''Bob'')], []) \<and>
   fst (snd (resolvePersonImages demoEnv [1, 0]
     (storeOf [annWithHeadshot, stored (lit ''Bob'')], []))) 0 = Some annWithHeadshot"
proof -
  note t = resolvePersonImages_skips_record_with_headshot
      [where h = "storeOf [annWithHeadshot, stored (lit ''Bob'')]" and a = 0
        and p = annWithHeadshot and e = demoEnv and before = "[1]" and rest = "[]" and tr = "[]",
       OF demo_store_0 annWithHeadshot_truthy, unfolded append.simps append_Nil2]
  from t have
    "resolvePersonImages demoEnv [1, 0] (storeOf [annWithHeadshot, stored (lit ''Bob'')], []) =
       resolvePersonImages demoEnv [1] (storeOf [annWithHeadshot, stored (lit ''Bob'')], [])"
    "fst (snd (resolvePersonImages demoEnv [1, 0]
       (storeOf [annWithHeadshot, stored (lit ''Bob'')], []))) 0 = Some annWithHeadshot"
    by blast+
  with demo_store_0 annWithHeadshot_truthy show ?thesis by blast
qed

subsection \<open>A missing URL\<close>










subsection \<open>The random count\<close>

lemma roundHalfEven_le: "q \<le> of_int n \<Longrightarrow> roundHalfEven q \<le> n"
proof -
  assume h: "q \<le> of_int n"
  then have f: "\<lfloor>q\<rfloor> \<le> n" by (simp add: floor_le_iff)
  show ?thesis
  proof (cases "q = of_int \<lfloor>q\<rfloor>")
    case True
    then have "q - of_int \<lfloor>q\<rfloor> = 0" by simp
    then show ?thesis using f by (simp add: roundHalfEven_def Let_def)
  next
    case False
    then have "of_int \<lfloor>q\<rfloor> < q" using of_int_floor_le [of q] by linarith
    with h have "of_int \<lfloor>q\<rfloor> < (of_int n :: rat)" by linarith
    then have "\<lfloor>q\<rfloor> + 1 \<le> n" by simp
    with f show ?thesis by (simp add: roundHalfEven_def Let_def)
  qed
qed

lemma roundHalfEven_ge: "of_int n \<le> q \<Longrightarrow> n \<le> roundHalfEven q"
proof -
  assume "of_int n \<le> q"
  then have "n \<le> \<lfloor>q\<rfloor>" by (simp add: le_floor_iff)
  then show ?thesis by (simp add: roundHalfEven_def Let_def)
qed

lemma exponentOf_bounds:
  assumes "0 < x"
  shows "2 powi (exponentOf x) \<le> x \<and> x < 2 powi (exponentOf x + 1)"
proof -
  obtain p q where pq: "quotient_of x = (p, q)" by (cases "quotient_of x")
  have q: "0 < q" using pq by (rule quotient_of_denom_pos)
  have x: "x = of_int p / of_int q" using pq by (rule quotient_of_div)
  have p: "0 < p" using assms q x by (simp add: zero_less_divide_iff)
  define k where "k = bitlen p - bitlen q"
  have bp: "2 ^ nat (bitlen p - 1) \<le> p" "p < 2 ^ nat (bitlen p)"
    using bitlen_bounds [OF p] by simp_all
  have bq: "2 ^ nat (bitlen q - 1) \<le> q" "q < 2 ^ nat (bitlen q)"
    using bitlen_bounds [OF q] by simp_all
  have lp: "1 \<le> bitlen p" using p bitlen_nonneg [of p] bitlen_eq_zero_iff [of p] by linarith
  have lq: "1 \<le> bitlen q" using q bitlen_nonneg [of q] bitlen_eq_zero_iff [of q] by linarith
  have rp: "(2::rat) powi (bitlen p - 1) \<le> of_int p" "of_int p < (2::rat) powi (bitlen p)"
  proof -
    have "(of_int (2 ^ nat (bitlen p - 1)) :: rat) \<le> of_int p" using bp(1) by (simp only: of_int_le_iff)
    then show "(2::rat) powi (bitlen p - 1) \<le> of_int p" using lp by (simp add: power_int_def)
    have "(of_int p :: rat) < of_int (2 ^ nat (bitlen p))" using bp(2) by (simp only: of_int_less_iff)
    then show "of_int p < (2::rat) powi (bitlen p)" using lp by (simp add: power_int_def)
  qed
  have rq: "(2::rat) powi (bitlen q - 1) \<le> of_int q" "of_int q < (2::rat) powi (bitlen q)"
  proof -
    have "(of_int (2 ^ nat (bitlen q - 1)) :: rat) \<le> of_int q" using bq(1) by (simp only: of_int_le_iff)
    then show "(2::rat) powi (bitlen q - 1) \<le> of_int q" using lq by (simp add: power_int_def)
    have "(of_int q :: rat) < of_int (2 ^ nat (bitlen q))" using bq(2) by (simp only: of_int_less_iff)
    then show "of_int q < (2::rat) powi (bitlen q)" using lq by (simp add: power_int_def)
  qed
  have qpos: "(0::rat) < of_int q" using q by simp
  have up: "x < 2 powi (k + 1)"
  proof -
    have "x * of_int q = of_int p" using x qpos by simp
    also have "\<dots> < 2 powi (bitlen p)" by (rule rp(2))
    also have "\<dots> = 2 powi (k + 1) * 2 powi (bitlen q - 1)"
      by (simp add: k_def power_int_add [symmetric])
    also have "\<dots> \<le> 2 powi (k + 1) * of_int q"
      using rq(1) by (intro mult_left_mono) simp_all
    finally show ?thesis using qpos by simp
  qed
  have lo: "2 powi (k - 1) < x"
  proof -
    have "2 powi (k - 1) * of_int q < 2 powi (k - 1) * (2::rat) powi (bitlen q)"
      using rq(2) by (intro mult_strict_left_mono) simp_all
    also have "\<dots> = 2 powi (bitlen p - 1)"
      by (simp add: k_def power_int_add [symmetric])
    also have "\<dots> \<le> of_int p" by (rule rp(1))
    also have "\<dots> = x * of_int q" using x qpos by simp
    finally show ?thesis using qpos by simp
  qed
  have e: "exponentOf x = (if 2 powi k \<le> x then k else k - 1)"
    by (simp add: exponentOf_def pq k_def Let_def)
  show ?thesis
  proof (cases "2 powi k \<le> x")
    case True
    with e up show ?thesis by simp
  next
    case False
    with e lo show ?thesis by simp
  qed
qed

lemma powi_mono2: "(2::rat) powi a < 2 powi b \<Longrightarrow> a < b"
proof (rule ccontr)
  assume h: "(2::rat) powi a < 2 powi b" and "\<not> a < b"
  then have "b \<le> a" by simp
  then have "(2::rat) powi b \<le> 2 powi a" by (intro power_int_increasing) simp_all
  with h show False by simp
qed

lemma exponentOf_unique:
  assumes "0 < x" "2 powi e \<le> x" "x < 2 powi (e + 1)"
  shows "exponentOf x = e"
proof -
  from exponentOf_bounds [OF assms(1)]
  have b: "2 powi (exponentOf x) \<le> x" "x < 2 powi (exponentOf x + 1)" by simp_all
  have "(2::rat) powi e < 2 powi (exponentOf x + 1)" using assms(2) b(2) by simp
  then have 1: "e < exponentOf x + 1" by (rule powi_mono2)
  have "(2::rat) powi (exponentOf x) < 2 powi (e + 1)" using assms(3) b(1) by simp
  then have 2: "exponentOf x < e + 1" by (rule powi_mono2)
  from 1 2 show ?thesis by simp
qed

text \<open>Below \<open>2 ^ 53\<close> the spacing of the binary64 values divides 1.\<close>

lemma ulp_small:
  assumes "x \<noteq> 0" "\<bar>x\<bar> < 2 ^ 53"
  shows "\<exists>j::nat. ulp x = 1 / 2 ^ j"
proof -
  have "0 < \<bar>x\<bar>" using assms(1) by simp
  from exponentOf_bounds [OF this] have "2 powi (exponentOf \<bar>x\<bar>) \<le> \<bar>x\<bar>" by simp
  with assms(2) have "(2::rat) powi (exponentOf \<bar>x\<bar>) < 2 powi 53" by simp
  then have "exponentOf \<bar>x\<bar> < 53" by (rule powi_mono2)
  then have "max (exponentOf \<bar>x\<bar>) (- 1022) - 52 \<le> 0" by simp
  then obtain j :: nat where j: "max (exponentOf \<bar>x\<bar>) (- 1022) - 52 = - int j"
    by (metis nat_0_le neg_0_le_iff_le minus_minus)
  have "ulp x = 2 powi (- int j)" by (simp add: ulp_def j)
  also have "\<dots> = 1 / 2 ^ j" by (simp add: power_int_minus field_simps)
  finally show ?thesis by blast
qed

lemma toDouble_le:
  assumes "\<bar>x\<bar> < 2 ^ 53" "x \<le> of_int n"
  shows "toDouble x \<le> of_int n"
proof (cases "x = 0")
  case True
  with assms(2) show ?thesis by (simp add: toDouble_def)
next
  case False
  from ulp_small [OF False assms(1)] obtain j :: nat where j: "ulp x = 1 / 2 ^ j" by blast
  have "x / ulp x = x * 2 ^ j" by (simp add: j)
  also have "\<dots> \<le> of_int n * 2 ^ j" using assms(2) by (intro mult_right_mono) simp_all
  also have "\<dots> = of_int (n * 2 ^ j)" by simp
  finally have "roundHalfEven (x / ulp x) \<le> n * 2 ^ j" by (rule roundHalfEven_le)
  then have "(of_int (roundHalfEven (x / ulp x)) :: rat) \<le> of_int (n * 2 ^ j)"
    by (simp only: of_int_le_iff)
  then have "of_int (roundHalfEven (x / ulp x)) * ulp x \<le> of_int (n * 2 ^ j) * ulp x"
    by (intro mult_right_mono) (simp_all add: j)
  also have "\<dots> = of_int n" by (simp add: j)
  finally show ?thesis using False by (simp add: toDouble_def)
qed

lemma toDouble_ge:
  assumes "\<bar>x\<bar> < 2 ^ 53" "of_int n \<le> x"
  shows "of_int n \<le> toDouble x"
proof (cases "x = 0")
  case True
  with assms(2) show ?thesis by (simp add: toDouble_def)
next
  case False
  from ulp_small [OF False assms(1)] obtain j :: nat where j: "ulp x = 1 / 2 ^ j" by blast
  have "of_int (n * 2 ^ j) = of_int n * (2::rat) ^ j" by simp
  also have "\<dots> \<le> x * 2 ^ j" using assms(2) by (intro mult_right_mono) simp_all
  also have "\<dots> = x / ulp x" by (simp add: j)
  finally have "n * 2 ^ j \<le> roundHalfEven (x / ulp x)" by (rule roundHalfEven_ge)
  then have "(of_int (n * 2 ^ j) :: rat) \<le> of_int (roundHalfEven (x / ulp x))"
    by (simp only: of_int_le_iff)
  then have "of_int (n * 2 ^ j) * ulp x \<le> of_int (roundHalfEven (x / ulp x)) * ulp x"
    by (intro mult_right_mono) (simp_all add: j)
  moreover have "of_int (n * 2 ^ j) * ulp x = of_int n" by (simp add: j)
  ultimately have "of_int n \<le> of_int (roundHalfEven (x / ulp x)) * ulp x" by (simp only:)
  then show ?thesis using False by (simp only: toDouble_def if_False)
qed

lemma toDouble_int:
  assumes "\<bar>n\<bar> < 2 ^ 53"
  shows "toDouble (of_int n) = of_int n"
proof -
  have "\<bar>of_int n :: rat\<bar> < 2 ^ 53"
  proof -
    have "(of_int \<bar>n\<bar> :: rat) < of_int (2 ^ 53)" using assms by (simp only: of_int_less_iff)
    then show ?thesis by simp
  qed
  from toDouble_le [OF this, of n] toDouble_ge [OF this, of n] show ?thesis by simp
qed

lemma roundHalfEven_of_int: "roundHalfEven (of_int n) = n"
  by (simp add: roundHalfEven_def)

lemma roundHalfEven_tie_odd: "odd n \<Longrightarrow> roundHalfEven (of_int n + 1 / 2) = n + 1"
proof -
  assume o: "odd n"
  have f: "\<lfloor>(of_int n + 1 / 2 :: rat)\<rfloor> = n" by (simp add: floor_unique)
  have "(of_int n + 1 / 2 :: rat) - of_int n = 1 / 2" by simp
  with o show ?thesis by (simp add: roundHalfEven_def f)
qed

lemma roundedSum_bounds:
  assumes "mn < mx" "- (2 ^ 53) < mn" "mx < 2 ^ 53" "mx - mn < 2 ^ 53" "0 \<le> r" "r < 1"
  shows "of_int mn \<le> roundedSum r mn mx \<and> roundedSum r mn mx \<le> of_int mx"
proof -
  define d :: rat where "d = of_int mx - of_int mn"
  have d: "d = of_int (mx - mn)" by (simp add: d_def)
  have "\<bar>mx - mn\<bar> < 2 ^ 53" using assms(1,4) by simp
  then have td: "toDouble d = d" unfolding d by (rule toDouble_int)
  have dpos: "0 < d" using assms(1) by (simp add: d_def)
  have dlt: "d < 2 ^ 53"
  proof -
    have "(of_int (mx - mn) :: rat) < of_int (2 ^ 53)" using assms(4) by (simp only: of_int_less_iff)
    then show ?thesis by (simp add: d)
  qed
  define y where "y = toDouble (r * d)"
  have x1: "0 \<le> r * d" "r * d \<le> d"
    using assms(5,6) dpos by (simp_all add: mult_left_le_one_le)
  then have a1: "\<bar>r * d\<bar> < 2 ^ 53" using dlt by simp
  have "of_int 0 \<le> y" unfolding y_def using x1(1) by (intro toDouble_ge [OF a1]) simp
  then have y0: "0 \<le> y" by simp
  have y1: "y \<le> of_int (mx - mn)" unfolding y_def using x1(2) d by (intro toDouble_le [OF a1]) simp
  have lo: "of_int mn \<le> y + of_int mn" using y0 by simp
  have hi: "y + of_int mn \<le> of_int mx" using y1 by simp
  have "(of_int (- (2 ^ 53)) :: rat) < of_int mn" using assms(2) by (simp only: of_int_less_iff)
  moreover have "(of_int mx :: rat) < of_int (2 ^ 53)" using assms(3) by (simp only: of_int_less_iff)
  ultimately have a2: "\<bar>y + of_int mn\<bar> < 2 ^ 53" using lo hi by simp
  have "of_int mn \<le> toDouble (y + of_int mn)" using lo by (rule toDouble_ge [OF a2])
  moreover have "toDouble (y + of_int mn) \<le> of_int mx" using hi by (rule toDouble_le [OF a2])
  ultimately show ?thesis
    by (simp add: roundedSum_def td y_def d_def [symmetric])
qed

lemma floorRandom_bounds:
  assumes "mn < mx" "- (2 ^ 53) < mn" "mx < 2 ^ 53" "mx - mn < 2 ^ 53" "0 \<le> r" "r < 1"
  shows "mn \<le> floorRandom r mn mx \<and> floorRandom r mn mx \<le> mx \<and>
         (floorRandom r mn mx < mx \<or> roundedSum r mn mx = of_int mx)"
proof -
  from roundedSum_bounds [OF assms]
  have b: "of_int mn \<le> roundedSum r mn mx" "roundedSum r mn mx \<le> of_int mx" by simp_all
  have 1: "mn \<le> floorRandom r mn mx" using b(1) by (simp add: floorRandom_def le_floor_iff)
  have 2: "floorRandom r mn mx \<le> mx" using b(2) by (simp add: floorRandom_def floor_le_iff)
  have 3: "floorRandom r mn mx < mx \<or> roundedSum r mn mx = of_int mx"
  proof (cases "roundedSum r mn mx = of_int mx")
    case True
    then show ?thesis by simp
  next
    case False
    with b(2) have "roundedSum r mn mx < of_int mx" by simp
    then have "floorRandom r mn mx < mx" by (simp add: floorRandom_def floor_less_iff)
    then show ?thesis by simp
  qed
  from 1 2 3 show ?thesis by blast
qed

lemma exact_sum_below_max:
  assumes "mn < mx" "r < 1"
  shows "r * (of_int mx - of_int mn) + of_int mn < (of_int mx :: rat)"
proof -
  have "0 < (of_int mx - of_int mn :: rat)" using assms(1) by simp
  then have "r * (of_int mx - of_int mn) < 1 * (of_int mx - of_int mn)"
    using assms(2) by (intro mult_strict_right_mono) simp_all
  then show ?thesis by simp
qed

lemma getRandomVirtualPersons_request:
  "snd (getRandomVirtualPersons e mn mx tr) =
     tr @ [ChatCompletion \<lparr>max_tokens = None,
             prompt = namesPrompt (thisProjectName e) (floorRandom (mathRandom e tr) mn mx),
             responseFormat = PersonsListJsonFormat\<rparr>]"
  by (simp add: getRandomVirtualPersons_def Let_def split: sum.splits chatResponse.splits)

text \<open>
  C6 (as amended). Let \<open>min < max\<close> be integers that binary64 holds exactly together
  with their difference (each of the three below \<open>2 ^ 53\<close> in magnitude). For every
  outcome \<open>0 \<le> r < 1\<close> of the random draw the count that \<^verbatim>\<open>getRandomVirtualPersons\<close>
  computes, and writes into the names prompt, is at least \<open>min\<close> and at most \<open>max\<close>,
  and it is below \<open>max\<close> unless the binary64 sum \<^verbatim>\<open>Math.random() * (max - min) + min\<close>
  is \<open>max\<close> itself, which only rounding brings about: the exact sum is below \<open>max\<close>.
\<close>

theorem random_count_below_max_unless_sum_rounds_to_max:
  assumes "mn < mx" "- (2 ^ 53) < mn" "mx < 2 ^ 53" "mx - mn < 2 ^ 53"
    and "0 \<le> mathRandom e tr" "mathRandom e tr < 1"
  shows "\<exists>number. mn \<le> number \<and> number \<le> mx \<and>
           (number < mx \<or> roundedSum (mathRandom e tr) mn mx = of_int mx) \<and>
           mathRandom e tr * (of_int mx - of_int mn) + of_int mn < (of_int mx :: rat) \<and>
           number = floorRandom (mathRandom e tr) mn mx \<and>
           snd (getRandomVirtualPersons e mn mx tr) =
             tr @ [ChatCompletion \<lparr>max_tokens = None,
                     prompt = namesPrompt (thisProjectName e) number,
                     responseFormat = PersonsListJsonFormat\<rparr>]"
  using floorRandom_bounds [OF assms] exact_sum_below_max [OF assms(1,6)]
    getRandomVirtualPersons_request [of e mn mx tr]
  by simp

lemma toDouble_zero: "toDouble 0 = 0"
  by (simp add: toDouble_def)

lemma floorRandom_zero_1_3: "floorRandom 0 1 3 = 1"
proof -
  have "toDouble (of_int 1) = of_int 1" by (rule toDouble_int) simp
  then have "toDouble 1 = 1" by simp
  then show ?thesis by (simp add: floorRandom_def roundedSum_def toDouble_zero)
qed

theorem random_count_below_max_witness:
  "(1::int) < 3 \<and> 0 \<le> mathRandom demoEnv [] \<and> mathRandom demoEnv [] < 1 \<and>
   floorRandom (mathRandom demoEnv []) 1 3 = 1 \<and> floorRandom (mathRandom demoEnv []) 1 3 < 3 \<and>
   snd (getRandomVirtualPersons demoEnv 1 3 []) =
     [ChatCompletion \<lparr>max_tokens = None,
        prompt = namesPrompt (thisProjectName demoEnv) 1,
        responseFormat = PersonsListJsonFormat\<rparr>]"
proof -
  have r: "0 \<le> mathRandom demoEnv []" "mathRandom demoEnv [] < 1"
    by (simp_all add: demoEnv_def)
  have f: "floorRandom (mathRandom demoEnv []) 1 3 = 1"
    using floorRandom_zero_1_3 by (simp add: demoEnv_def)
  from random_count_below_max_unless_sum_rounds_to_max [of 1 3 demoEnv "[]", OF _ _ _ _ r] f r
  show ?thesis by simp
qed

text \<open>
  C6 as stated fails. The outcome \<open>1 - 2\<^sup>-\<^sup>5\<^sup>2\<close> is a binary64 value in \<open>[0, 1)\<close>; with
  \<open>min = 2\<close> and \<open>max = 3\<close> the sum \<open>3 - 2\<^sup>-\<^sup>5\<^sup>2\<close> lies halfway between two binary64
  values and rounds to the even one, 3: the count is \<open>max\<close>.
\<close>

lemma exponent_near_one: "exponentOf (1 - 1 / 2 ^ 52) = - 1"
  by (rule exponentOf_unique) (simp_all add: power_int_minus)

lemma exponent_near_three: "exponentOf (3 - 1 / 2 ^ 52) = 1"
  by (rule exponentOf_unique) simp_all

lemma toDouble_near_one: "toDouble (1 - 1 / 2 ^ 52) = 1 - 1 / 2 ^ 52"
proof -
  have u: "ulp (1 - 1 / 2 ^ 52) = 1 / 2 ^ 53"
    using exponent_near_one by (simp add: ulp_def power_int_minus)
  have "(1 - 1 / 2 ^ 52) / ulp (1 - 1 / 2 ^ 52) = (of_int (2 ^ 53 - 2) :: rat)"
    unfolding u by simp
  then have "roundHalfEven ((1 - 1 / 2 ^ 52) / ulp (1 - 1 / 2 ^ 52)) = 2 ^ 53 - 2"
    by (simp only: roundHalfEven_of_int)
  then have "of_int (roundHalfEven ((1 - 1 / 2 ^ 52) / ulp (1 - 1 / 2 ^ 52)))
      * ulp (1 - 1 / 2 ^ 52) = (1 - 1 / 2 ^ 52 :: rat)"
    unfolding u by simp
  moreover have "(1 - 1 / 2 ^ 52 :: rat) \<noteq> 0" by simp
  ultimately show ?thesis by (simp only: toDouble_def if_False)
qed

lemma toDouble_near_three: "toDouble (3 - 1 / 2 ^ 52) = 3"
proof -
  have u: "ulp (3 - 1 / 2 ^ 52) = 1 / 2 ^ 51"
    using exponent_near_three by (simp add: ulp_def power_int_minus)
  have "(3 - 1 / 2 ^ 52) / ulp (3 - 1 / 2 ^ 52) = (of_int (3 * 2 ^ 51 - 1) + 1 / 2 :: rat)"
    unfolding u by simp
  moreover have "odd (3 * 2 ^ 51 - 1 :: int)" by simp
  then have "roundHalfEven (of_int (3 * 2 ^ 51 - 1) + 1 / 2) = 3 * 2 ^ 51 - 1 + 1"
    by (rule roundHalfEven_tie_odd)
  ultimately have "roundHalfEven ((3 - 1 / 2 ^ 52) / ulp (3 - 1 / 2 ^ 52)) = 3 * 2 ^ 51 - 1 + 1"
    by (simp only:)
  then have "of_int (roundHalfEven ((3 - 1 / 2 ^ 52) / ulp (3 - 1 / 2 ^ 52)))
      * ulp (3 - 1 / 2 ^ 52) = (3 :: rat)"
    unfolding u by simp
  moreover have "(3 - 1 / 2 ^ 52 :: rat) \<noteq> 0" by simp
  ultimately show ?thesis by (simp only: toDouble_def if_False)
qed

theorem random_count_reaches_max:
  "(0::rat) \<le> 1 - 1 / 2 ^ 52 \<and> (1 - 1 / 2 ^ 52 :: rat) < 1 \<and>
   toDouble (1 - 1 / 2 ^ 52) = 1 - 1 / 2 ^ 52 \<and>
   roundedSum (1 - 1 / 2 ^ 52) 2 3 = 3 \<and>
   floorRandom (1 - 1 / 2 ^ 52) 2 3 = 3"
proof -
  have "toDouble (of_int 1) = of_int 1" by (rule toDouble_int) simp
  then have one: "toDouble 1 = 1" by simp
  have "(1 - 1 / 2 ^ 52 :: rat) + 2 = 3 - 1 / 2 ^ 52" by simp
  then have "roundedSum (1 - 1 / 2 ^ 52) 2 3 = toDouble (3 - 1 / 2 ^ 52)"
    by (simp add: roundedSum_def one toDouble_near_one del: power_numeral)
  then have s: "roundedSum (1 - 1 / 2 ^ 52) 2 3 = 3" by (simp only: toDouble_near_three)
  then have "floorRandom (1 - 1 / 2 ^ 52) 2 3 = 3" by (simp add: floorRandom_def)
  with s show ?thesis using toDouble_near_one by simp
qed

end
